theory Spec2Isabelle
  imports Complex_Main "HOL-Library.Word" "HOL-Library.Log_Nat"
begin

unbundle bit_operations_syntax

section \<open>Input descriptors (QueryEngine/Descriptors/InputDescriptors.h)\<close>

text \<open>
  \<open>int\<close> is a 32-bit signed integer and \<open>size_t\<close> a 64-bit unsigned one.
  \<open>static_cast<size_t>\<close> of an \<open>int\<close> sign-extends (\<open>signed\<close>), \<open><<\<close> is
  \<open>push_bit\<close>, and \<open>8 * sizeof(nest_level_)\<close> is 32.
\<close>

record InputDescriptor =
  table_id :: "32 word"
  nest_level :: "32 word"

definition InputDescriptor_eq :: "InputDescriptor \<Rightarrow> InputDescriptor \<Rightarrow> bool" where
  "InputDescriptor_eq this that \<longleftrightarrow>
     table_id this = table_id that \<and> nest_level this = nest_level that"

definition InputDescriptor_hash :: "InputDescriptor \<Rightarrow> 64 word" where
  "InputDescriptor_hash this =
     push_bit 32 (signed (table_id this) :: 64 word) OR signed (nest_level this)"

record InputColDescriptor =
  col_id :: "32 word"
  input_desc :: InputDescriptor

definition InputColDescriptor_eq :: "InputColDescriptor \<Rightarrow> InputColDescriptor \<Rightarrow> bool" where
  "InputColDescriptor_eq this that \<longleftrightarrow>
     col_id this = col_id that \<and> InputDescriptor_eq (input_desc this) (input_desc that)"

definition InputColDescriptor_hash :: "InputColDescriptor \<Rightarrow> 64 word" where
  "InputColDescriptor_hash this =
     InputDescriptor_hash (input_desc this) XOR push_bit 16 (signed (col_id this) :: 64 word)"

section \<open>Segment tree (QueryEngine/Utils/SegmentTree.h)\<close>

subsection \<open>Runs without a result\<close>

text \<open>
  The ways in which a run of the code ends without a result. The last two come from the
  \<open>double\<close> arithmetic: \<open>UndefinedConversion\<close> is the conversion of a \<open>double\<close> to an
  integer type that cannot hold it, which has no defined result, and \<open>InexactPow\<close> is a
  call of \<open>pow\<close> whose exact result is no \<open>double\<close>, so that what the code goes on with
  is the choice of the library; the embedding does not follow the code beyond it.
\<close>

datatype error =
    CheckFailed
  | NodeBufferOutOfBounds
  | UninitialisedRead
  | IndexBufferOutOfBounds
  | ColumnBufferOutOfBounds
  | DivisionByZero
  | UndefinedConversion
  | InexactPow

subsection \<open>Tree geometry: \<open>findMaxTreeHeight\<close>\<close>

text \<open>
  \<open>size_t maximum_node_at_next_level = pow(fan_out, depth)\<close>: the \<open>int\<close> and the
  \<open>size_t\<close> are converted to \<open>double\<close>, \<open>pow\<close> of \<open><cmath>\<close> returns a \<open>double\<close>, and
  the initialisation converts it to \<open>size_t\<close>. An exponent below \<open>2^53\<close> is converted
  exactly, and a power of magnitude below \<open>2^53\<close> is a \<open>double\<close>, which \<open>pow\<close> is taken
  to return (a \<open>pow\<close> that errs by less than one unit in the last place does). A negative
  power has no conversion to \<open>size_t\<close>.
\<close>

definition pow_to_size_t :: "int \<Rightarrow> 64 word \<Rightarrow> error + 64 word" where
  "pow_to_size_t fan_out depth =
     (if 2 ^ 53 \<le> uint depth then Inl InexactPow
      else if 2 ^ 53 \<le> \<bar>fan_out ^ unat depth\<bar> then Inl InexactPow
      else if fan_out ^ unat depth < 0 then Inl UndefinedConversion
      else Inr (word_of_int (fan_out ^ unat depth)))"

text \<open>
  The \<open>while (true)\<close> loop of \<open>findMaxTreeHeight\<close>, with its three loop variables as
  arguments. \<open>fan_out\<close> is an \<open>int\<close>, \<open>depth\<close> a \<open>size_t\<close>, and the offsets are
  \<open>int64_t\<close>, as are the two components of an \<open>IndexPair\<close>. The sum
  \<open>cur_level_start_offset + maximum_node_at_next_level\<close> of an \<open>int64_t\<close> and a \<open>size_t\<close>
  is taken in \<open>size_t\<close>, modulo \<open>2^64\<close>, and converted back when the pair is made. A
  loop that never returns is \<open>None\<close>.
\<close>

partial_function (option) findMaxTreeHeight_loop ::
  "int \<Rightarrow> int \<Rightarrow> int \<Rightarrow> 64 word \<Rightarrow> int \<times> int \<Rightarrow> (error + 64 word \<times> (int \<times> int)) option" where
  "findMaxTreeHeight_loop num_elem fan_out cur_level_start_offset depth index_pair =
     (if num_elem < cur_level_start_offset then Some (Inr (depth, index_pair))
      else
        (case pow_to_size_t fan_out (depth + 1) of
           Inl e \<Rightarrow> Some (Inl e)
         | Inr maximum_node_at_next_level \<Rightarrow>
             findMaxTreeHeight_loop num_elem fan_out
               (sint (word_of_int cur_level_start_offset + maximum_node_at_next_level))
               (depth + 1)
               (cur_level_start_offset,
                sint (word_of_int cur_level_start_offset + maximum_node_at_next_level))))"

declare findMaxTreeHeight_loop.simps [code]

definition findMaxTreeHeight ::
  "int \<Rightarrow> int \<Rightarrow> (error + 64 word \<times> (int \<times> int)) option" where
  "findMaxTreeHeight num_elem fan_out =
     (if num_elem \<le> 0 then Some (Inr (0, (0, 0)))
      else findMaxTreeHeight_loop num_elem fan_out 1 0 (0, 0))"

subsection \<open>Types and tree state\<close>

text \<open>
  The class is a template over \<open>INPUT_TYPE\<close> and \<open>AGG_TYPE\<close>. The embedding takes
  both as integer types: a value is an \<open>int\<close>, and what the code asks of the type
  (\<open>std::numeric_limits<T>::max()\<close>, \<open>::min()\<close>, \<open>inline_null_value<T>()\<close>) is a
  field of \<open>TypeTraits\<close>. Arithmetic overflow of the accumulator is outside the model.
  \<open>SQLTypeInfo\<close> (Shared/sqltypes.h) is taken with the two members \<open>query\<close> uses.
\<close>

datatype SqlWindowFunctionKind = MIN_agg | MAX_agg | SUM_agg | COUNT_agg | AVG_agg

record TypeTraits =
  numeric_max :: int
  numeric_min :: int
  inline_null_value :: int

record SQLTypeInfo =
  is_decimal :: bool
  get_scale :: int

text \<open>
  Modelled from the spec: \<open>SumAndCountPair\<close> (SegmentTreeUtils.h is not part of the
  sources): the node payload of an AVG tree, a pair of a sum and an element count.
\<close>

record SumAndCountPair =
  sum_field :: int
  count_field :: int

text \<open>
  A node buffer comes from \<open>checked_malloc\<close>: a cell is \<open>None\<close> until it is written.
  A pointer member that the constructor never sets has no cell at all (\<open>[]\<close>).
\<close>

record SegmentTree =
  INPUT_TYPE :: TypeTraits
  AGG_TYPE :: TypeTraits
  input_col_buf :: "int list"
  input_col_ti :: SQLTypeInfo
  original_input_col_idx_buf :: "int list"
  ordered_input_col_idx_buf :: "int list"
  num_elems :: int
  fan_out :: nat
  leaf_size :: int
  agg_type :: SqlWindowFunctionKind
  leaf_depth :: "64 word"
  leaf_range :: "int \<times> int"
  null_range :: "int \<times> int"
  tree_size :: int
  derived_aggregated :: "SumAndCountPair option list"
  aggregated_values :: "int option list"
  invalid_val :: int
  input_type_null_val :: int
  null_val :: int

subsection \<open>Memory accesses\<close>

definition read_input :: "error \<Rightarrow> int list \<Rightarrow> int \<Rightarrow> error + int" where
  "read_input e buf i =
     (if 0 \<le> i \<and> i < int (length buf) then Inr (buf ! nat i) else Inl e)"

definition read_node :: "'a option list \<Rightarrow> int \<Rightarrow> error + 'a" where
  "read_node buf i =
     (if 0 \<le> i \<and> i < int (length buf)
      then (case buf ! nat i of None \<Rightarrow> Inl UninitialisedRead | Some v \<Rightarrow> Inr v)
      else Inl NodeBufferOutOfBounds)"

definition write_node :: "'a option list \<Rightarrow> int \<Rightarrow> 'a \<Rightarrow> error + 'a option list" where
  "write_node buf i v =
     (if 0 \<le> i \<and> i < int (length buf) then Inr (buf[nat i := Some v])
      else Inl NodeBufferOutOfBounds)"

text \<open>
  \<open>original_input_col_idx_buf_[ordered_input_col_idx_buf_[input_col_idx]]\<close>: the two
  index reads of the indirection.
\<close>

definition refine_input_col_idx :: "SegmentTree \<Rightarrow> int \<Rightarrow> error + int" where
  "refine_input_col_idx t input_col_idx =
     (case read_input IndexBufferOutOfBounds (ordered_input_col_idx_buf t) input_col_idx of
        Inl e \<Rightarrow> Inl e
      | Inr i_idx \<Rightarrow> read_input IndexBufferOutOfBounds (original_input_col_idx_buf t) i_idx)"

subsection \<open>Combination rules\<close>

definition aggregateValue :: "SegmentTree \<Rightarrow> int list \<Rightarrow> int" where
  "aggregateValue t vals =
     (if agg_type t = MIN_agg then
        (case fold (\<lambda>val (min_val, all_nulls).
                      if val \<noteq> null_val t \<and> val \<noteq> invalid_val t
                      then (min min_val val, False) else (min_val, all_nulls))
                   vals (numeric_max (AGG_TYPE t), True) of
           (min_val, all_nulls) \<Rightarrow> if all_nulls then null_val t else min_val)
      else if agg_type t = MAX_agg then
        (case fold (\<lambda>val (max_val, all_nulls).
                      if val \<noteq> null_val t \<and> val \<noteq> invalid_val t
                      then (max max_val val, False) else (max_val, all_nulls))
                   vals (numeric_min (AGG_TYPE t), True) of
           (max_val, all_nulls) \<Rightarrow> if all_nulls then null_val t else max_val)
      else
        (case fold (\<lambda>val (agg_val, all_nulls).
                      if val \<noteq> null_val t \<and> val \<noteq> invalid_val t
                      then (agg_val + val, False) else (agg_val, all_nulls))
                   vals (0, True) of
           (agg_val, all_nulls) \<Rightarrow> if all_nulls then null_val t else agg_val))"

text \<open>
  The loops of \<open>aggregateValueViaColumnAccess\<close> read \<open>aggregated_values_[i]\<close> for
  \<open>cur_col_idx \<le> i < cur_col_idx + num_visits\<close>; a read outside the buffer ends the scan
  with the error.
\<close>

definition scan_nodes ::
  "int option list \<Rightarrow> (int \<Rightarrow> 'acc \<Rightarrow> 'acc) \<Rightarrow> int \<Rightarrow> int \<Rightarrow> 'acc \<Rightarrow> error + 'acc" where
  "scan_nodes buf body cur_col_idx end_idx init =
     fold (\<lambda>i acc. case acc of
                      Inl e \<Rightarrow> Inl e
                    | Inr a \<Rightarrow> (case read_node buf i of
                                  Inl e \<Rightarrow> Inl e
                                | Inr val \<Rightarrow> Inr (body val a)))
          [cur_col_idx .. end_idx - 1] (Inr init)"

definition aggregateValueViaColumnAccess :: "SegmentTree \<Rightarrow> int \<Rightarrow> int \<Rightarrow> error + int" where
  "aggregateValueViaColumnAccess t cur_col_idx num_visits =
     (let end_idx = cur_col_idx + num_visits in
      if agg_type t = MIN_agg then
        (case scan_nodes (aggregated_values t)
                (\<lambda>val (min_val, all_nulls).
                   if val \<noteq> null_val t \<and> val \<noteq> invalid_val t
                   then (min min_val val, False) else (min_val, all_nulls))
                cur_col_idx end_idx (numeric_max (AGG_TYPE t), True) of
           Inl e \<Rightarrow> Inl e
         | Inr (min_val, all_nulls) \<Rightarrow> Inr (if all_nulls then null_val t else min_val))
      else if agg_type t = MAX_agg then
        (case scan_nodes (aggregated_values t)
                (\<lambda>val (max_val, all_nulls).
                   if val \<noteq> null_val t \<and> val \<noteq> invalid_val t
                   then (max max_val val, False) else (max_val, all_nulls))
                cur_col_idx end_idx (numeric_min (AGG_TYPE t), True) of
           Inl e \<Rightarrow> Inl e
         | Inr (max_val, all_nulls) \<Rightarrow> Inr (if all_nulls then null_val t else max_val))
      else
        (case scan_nodes (aggregated_values t)
                (\<lambda>val (agg_val, all_nulls).
                   if val \<noteq> null_val t \<and> val \<noteq> invalid_val t
                   then (agg_val + val, False) else (agg_val, all_nulls))
                cur_col_idx end_idx (0, True) of
           Inl e \<Rightarrow> Inl e
         | Inr (agg_val, all_nulls) \<Rightarrow> Inr (if all_nulls then null_val t else agg_val)))"

definition aggregateValueForDerivedAggregate ::
  "SegmentTree \<Rightarrow> SumAndCountPair list \<Rightarrow> SumAndCountPair" where
  "aggregateValueForDerivedAggregate t vals =
     (case fold (\<lambda>pair (res, all_nulls).
                   if sum_field pair \<noteq> null_val t \<and> sum_field pair \<noteq> invalid_val t
                   then (\<lparr>sum_field = sum_field res + sum_field pair,
                          count_field = count_field res + count_field pair\<rparr>, False)
                   else (res, all_nulls))
                vals (\<lparr>sum_field = 0, count_field = 0\<rparr>, True) of
        (res, all_nulls) \<Rightarrow>
          if all_nulls then \<lparr>sum_field = null_val t, count_field = 0\<rparr> else res)"

text \<open>
  \<open>aggregateValueForDerivedAggregateViaColumnAccess\<close> reads \<open>aggregated_values_[i]\<close>,
  the scalar buffer, and initialises a \<open>SumAndCountPair\<close> from the scalar it finds: the
  scalar is the sum and the count is value-initialised to 0.
\<close>

definition aggregateValueForDerivedAggregateViaColumnAccess ::
  "SegmentTree \<Rightarrow> int \<Rightarrow> int \<Rightarrow> error + SumAndCountPair" where
  "aggregateValueForDerivedAggregateViaColumnAccess t cur_col_idx num_visits =
     (let end_idx = cur_col_idx + num_visits in
      case scan_nodes (aggregated_values t)
             (\<lambda>val (res, all_nulls).
                let cur_pair_val = \<lparr>sum_field = val, count_field = 0\<rparr> in
                if sum_field cur_pair_val \<noteq> null_val t \<and> sum_field cur_pair_val \<noteq> invalid_val t
                then (\<lparr>sum_field = sum_field res + sum_field cur_pair_val,
                       count_field = count_field res + count_field cur_pair_val\<rparr>, False)
                else (res, all_nulls))
             cur_col_idx end_idx (\<lparr>sum_field = 0, count_field = 0\<rparr>, True) of
        Inl e \<Rightarrow> Inl e
      | Inr (res, all_nulls) \<Rightarrow>
          Inr (if all_nulls then \<lparr>sum_field = null_val t, count_field = 0\<rparr> else res))"

subsection \<open>Tree builder\<close>

definition bind_result :: "error + 'a \<Rightarrow> ('a \<Rightarrow> error + 'b) \<Rightarrow> error + 'b" where
  "bind_result r f = (case r of Inl e \<Rightarrow> Inl e | Inr x \<Rightarrow> f x)"

text \<open>
  The \<open>for (size_t i = 0; i < fan_out_; ++i)\<close> loops of the two \<open>prepareChildValues\<close>
  functions: each iteration runs the recursive call on the state the previous one left
  and appends the value it returns. \<open>None\<close> is a call that has not returned.
\<close>

primrec for_each_child ::
  "('s \<Rightarrow> nat \<Rightarrow> (error + 'v \<times> 's) option) \<Rightarrow> 's \<Rightarrow> nat list \<Rightarrow> (error + 'v list \<times> 's) option" where
  "for_each_child f s [] = Some (Inr ([], s))"
| "for_each_child f s (i # rest) =
     (case f s i of
        None \<Rightarrow> None
      | Some (Inl e) \<Rightarrow> Some (Inl e)
      | Some (Inr (v, s')) \<Rightarrow>
          (case for_each_child f s' rest of
             None \<Rightarrow> None
           | Some (Inl e) \<Rightarrow> Some (Inl e)
           | Some (Inr (vs, s'')) \<Rightarrow> Some (Inr (v # vs, s''))))"

definition prepareChildValuesforAggregation ::
  "(SegmentTree \<Rightarrow> int \<Rightarrow> 64 word \<Rightarrow> (error + int \<times> SegmentTree) option) \<Rightarrow>
   SegmentTree \<Rightarrow> int \<Rightarrow> 64 word \<Rightarrow> (error + int list \<times> SegmentTree) option" where
  "prepareChildValuesforAggregation build_rec t parent_idx cur_node_depth =
     (let next_node_depth = cur_node_depth + 1 in
      if cur_node_depth = 0 then
        for_each_child (\<lambda>t' i. build_rec t' (int i + 1) next_node_depth) t [0..<fan_out t]
      else
        (let cur_depth_start_offset = parent_idx * int (fan_out t) + 1 in
         for_each_child (\<lambda>t' i. build_rec t' (cur_depth_start_offset + int i) next_node_depth)
           t [0..<fan_out t]))"

text \<open>\<open>aggregated_values_[cur_node_idx] = v; return aggregated_values_[cur_node_idx];\<close>\<close>

definition store_aggregated :: "SegmentTree \<Rightarrow> int \<Rightarrow> int \<Rightarrow> error + int \<times> SegmentTree" where
  "store_aggregated t cur_node_idx v =
     bind_result (write_node (aggregated_values t) cur_node_idx v) (\<lambda>buf.
     bind_result (read_node buf cur_node_idx) (\<lambda>stored.
     Inr (stored, t\<lparr>aggregated_values := buf\<rparr>)))"

text \<open>
  \<open>build\<close> recurses until the node index falls into \<open>leaf_range_\<close>; the first argument
  bounds the depth of the recursion, and \<open>None\<close> is a recursion that has not come back
  within it.
\<close>

fun build :: "nat \<Rightarrow> SegmentTree \<Rightarrow> int \<Rightarrow> 64 word \<Rightarrow> (error + int \<times> SegmentTree) option" where
  "build 0 t cur_node_idx cur_node_depth = None"
| "build (Suc fuel) t cur_node_idx cur_node_depth =
     (if fst (leaf_range t) \<le> cur_node_idx \<and> cur_node_idx \<le> snd (leaf_range t) then
        (let input_col_idx = cur_node_idx - fst (leaf_range t) in
         if num_elems t \<le> input_col_idx then
           Some (bind_result (write_node (aggregated_values t) cur_node_idx (invalid_val t)) (\<lambda>buf.
                 Inr (invalid_val t, t\<lparr>aggregated_values := buf\<rparr>)))
         else
           Some (bind_result (refine_input_col_idx t input_col_idx) (\<lambda>refined_input_col_idx.
                 bind_result (read_input ColumnBufferOutOfBounds (input_col_buf t)
                                refined_input_col_idx) (\<lambda>col_val.
                 if col_val \<noteq> input_type_null_val t then
                   (if agg_type t = COUNT_agg then store_aggregated t cur_node_idx 1
                    else store_aggregated t cur_node_idx col_val)
                 else store_aggregated t cur_node_idx (null_val t)))))
      else
        (case prepareChildValuesforAggregation (build fuel) t cur_node_idx cur_node_depth of
           None \<Rightarrow> None
         | Some (Inl e) \<Rightarrow> Some (Inl e)
         | Some (Inr (child_vals, t')) \<Rightarrow>
             Some (store_aggregated t' cur_node_idx (aggregateValue t' child_vals))))"

definition prepareChildValuesforDerivedAggregate ::
  "(SegmentTree \<Rightarrow> int \<Rightarrow> 64 word \<Rightarrow> (error + SumAndCountPair \<times> SegmentTree) option) \<Rightarrow>
   SegmentTree \<Rightarrow> int \<Rightarrow> 64 word \<Rightarrow> (error + SumAndCountPair list \<times> SegmentTree) option" where
  "prepareChildValuesforDerivedAggregate build_rec t parent_idx cur_node_depth =
     (let next_node_depth = cur_node_depth + 1 in
      if cur_node_depth = 0 then
        for_each_child (\<lambda>t' i. build_rec t' (int i + 1) next_node_depth) t [0..<fan_out t]
      else
        (let cur_depth_start_offset = parent_idx * int (fan_out t) + 1 in
         for_each_child (\<lambda>t' i. build_rec t' (cur_depth_start_offset + int i) next_node_depth)
           t [0..<fan_out t]))"

definition store_derived ::
  "SegmentTree \<Rightarrow> int \<Rightarrow> SumAndCountPair \<Rightarrow> error + SumAndCountPair \<times> SegmentTree" where
  "store_derived t cur_node_idx v =
     bind_result (write_node (derived_aggregated t) cur_node_idx v) (\<lambda>buf.
     bind_result (read_node buf cur_node_idx) (\<lambda>stored.
     Inr (stored, t\<lparr>derived_aggregated := buf\<rparr>)))"

fun buildForDerivedAggregate ::
  "nat \<Rightarrow> SegmentTree \<Rightarrow> int \<Rightarrow> 64 word \<Rightarrow> (error + SumAndCountPair \<times> SegmentTree) option" where
  "buildForDerivedAggregate 0 t cur_node_idx cur_node_depth = None"
| "buildForDerivedAggregate (Suc fuel) t cur_node_idx cur_node_depth =
     (if fst (leaf_range t) \<le> cur_node_idx \<and> cur_node_idx \<le> snd (leaf_range t) then
        (let input_col_idx = cur_node_idx - fst (leaf_range t) in
         Some (bind_result (refine_input_col_idx t input_col_idx) (\<lambda>modified_input_col_idx.
               if num_elems t \<le> input_col_idx then
                 store_derived t cur_node_idx \<lparr>sum_field = invalid_val t, count_field = 0\<rparr>
               else
                 bind_result (read_input ColumnBufferOutOfBounds (input_col_buf t)
                                modified_input_col_idx) (\<lambda>col_val.
                 if col_val \<noteq> input_type_null_val t then
                   store_derived t cur_node_idx \<lparr>sum_field = col_val, count_field = 1\<rparr>
                 else
                   store_derived t cur_node_idx \<lparr>sum_field = null_val t, count_field = 0\<rparr>))))
      else
        (case prepareChildValuesforDerivedAggregate (buildForDerivedAggregate fuel) t
                cur_node_idx cur_node_depth of
           None \<Rightarrow> None
         | Some (Inl e) \<Rightarrow> Some (Inl e)
         | Some (Inr (child_vals, t')) \<Rightarrow>
             Some (store_derived t' cur_node_idx (aggregateValueForDerivedAggregate t' child_vals))))"

subsection \<open>Range query engine\<close>

definition computeChildIndexes :: "SegmentTree \<Rightarrow> int \<Rightarrow> 64 word \<Rightarrow> int list" where
  "computeChildIndexes t parent_idx parent_tree_depth =
     (if parent_tree_depth = 0 then map (\<lambda>i. int i + 1) [0..<fan_out t]
      else (let cur_depth_start_offset = parent_idx * int (fan_out t) + 1 in
            map (\<lambda>i. cur_depth_start_offset + int i) [0..<fan_out t]))"

text \<open>
  The covered sub-ranges that the child loop of \<open>search\<close> hands to its recursive calls.
  The loop updates \<open>child_search_start_idx\<close> and \<open>child_search_end_idx\<close> after each
  call, from \<open>pivot_idx\<close> and \<open>search_range_end_idx\<close> only, never from what the call
  returned; the first argument is the number of iterations left.
\<close>

fun childSearchRanges :: "nat \<Rightarrow> int \<Rightarrow> int \<Rightarrow> int \<Rightarrow> int \<Rightarrow> (int \<times> int) list" where
  "childSearchRanges 0 pivot_idx search_range_end_idx
     child_search_start_idx child_search_end_idx = []"
| "childSearchRanges (Suc k) pivot_idx search_range_end_idx
     child_search_start_idx child_search_end_idx =
     (child_search_start_idx, child_search_end_idx) #
     (let child_search_start_idx' = child_search_end_idx + 1;
          child_search_end_idx' = child_search_start_idx' + pivot_idx
      in childSearchRanges k pivot_idx search_range_end_idx child_search_start_idx'
           (if search_range_end_idx < child_search_end_idx' then search_range_end_idx
            else child_search_end_idx'))"

primrec collect_results :: "(error + 'a) list \<Rightarrow> error + 'a list" where
  "collect_results [] = Inr []"
| "collect_results (r # rs) =
     bind_result r (\<lambda>v. bind_result (collect_results rs) (\<lambda>vs. Inr (v # vs)))"

text \<open>
  \<open>cur_node_depth\<close> is a \<open>size_t\<close> and the recursion stops where it equals
  \<open>leaf_depth_\<close>. The leaf-level call of \<open>aggregateValueViaColumnAccess\<close> passes
  \<open>null_val_\<close> and \<open>invalid_val_\<close> after the two arguments of the callee, which are
  the members that the callee reads itself. The division by \<open>fan_out_\<close> traps when
  \<open>fan_out_\<close> is 0. It is an unsigned division, of a difference that is positive
  wherever the branch is reached (lemma \<open>partial_overlap_nonempty\<close>).
\<close>

function search ::
  "SegmentTree \<Rightarrow> int \<times> int \<Rightarrow> int \<Rightarrow> 64 word \<Rightarrow> int \<Rightarrow> int \<Rightarrow> error + int" where
  "search t query_range cur_node_idx cur_node_depth search_range_start_idx search_range_end_idx =
     (if num_elems t \<le> 0 then Inr (null_val t)
      else if search_range_end_idx < fst query_range \<or> snd query_range < search_range_start_idx
      then Inr (invalid_val t)
      else if fst query_range \<le> search_range_start_idx \<and> search_range_end_idx \<le> snd query_range
      then read_node (aggregated_values t) cur_node_idx
      else if cur_node_depth = leaf_depth t then
        (let num_visits = snd query_range - search_range_start_idx + 1 in
         aggregateValueViaColumnAccess t cur_node_idx num_visits)
      else if fan_out t = 0 then Inl DivisionByZero
      else
        (let pivot_idx = search_range_start_idx +
               (search_range_end_idx - search_range_start_idx) div int (fan_out t);
             child_indexes = computeChildIndexes t cur_node_idx cur_node_depth
         in bind_result
              (collect_results
                 (map (\<lambda>(child_index, child_search_start_idx, child_search_end_idx).
                         search t query_range child_index (cur_node_depth + 1)
                           child_search_start_idx child_search_end_idx)
                      (zip child_indexes
                         (childSearchRanges (length child_indexes) pivot_idx search_range_end_idx
                            search_range_start_idx pivot_idx))))
              (\<lambda>child_vals. Inr (aggregateValue t child_vals))))"
  by pat_completeness auto
termination
proof (relation "measure (\<lambda>(t, query_range, cur_node_idx, cur_node_depth, s, e).
                            unat (leaf_depth t - cur_node_depth))")
  show "wf (measure (\<lambda>(t, query_range, cur_node_idx, cur_node_depth, s, e).
                       unat (leaf_depth t - cur_node_depth)))"
    by simp
next
  fix t :: SegmentTree and cur_node_depth :: "64 word"
  fix query_range :: "int \<times> int" and cur_node_idx s e :: int
  fix child_index child_search_start_idx child_search_end_idx :: int
  assume "cur_node_depth \<noteq> leaf_depth t"
  then have "leaf_depth t - cur_node_depth \<noteq> 0"
    by simp
  then have less: "unat (leaf_depth t - cur_node_depth - 1) < unat (leaf_depth t - cur_node_depth)"
    by (simp add: unat_minus_one unat_gt_0)
  have eq: "leaf_depth t - (cur_node_depth + 1) = leaf_depth t - cur_node_depth - 1"
    by (rule diff_diff_eq [symmetric])
  have "unat (leaf_depth t - (cur_node_depth + 1)) < unat (leaf_depth t - cur_node_depth)"
    unfolding eq by (rule less)
  then show "((t, query_range, child_index, cur_node_depth + 1,
                     child_search_start_idx, child_search_end_idx),
                    (t, query_range, cur_node_idx, cur_node_depth, s, e))
                   \<in> measure (\<lambda>(t, query_range, cur_node_idx, cur_node_depth, s, e).
                                unat (leaf_depth t - cur_node_depth))"
    by simp
qed

function searchForDerivedAggregate ::
  "SegmentTree \<Rightarrow> int \<times> int \<Rightarrow> int \<Rightarrow> 64 word \<Rightarrow> int \<Rightarrow> int \<Rightarrow> error + SumAndCountPair" where
  "searchForDerivedAggregate t query_range cur_node_idx cur_node_depth
     search_range_start_idx search_range_end_idx =
     (if search_range_end_idx < fst query_range \<or> snd query_range < search_range_start_idx
      then Inr \<lparr>sum_field = invalid_val t, count_field = 0\<rparr>
      else if fst query_range \<le> search_range_start_idx \<and> search_range_end_idx \<le> snd query_range
      then read_node (derived_aggregated t) cur_node_idx
      else if cur_node_depth = leaf_depth t then
        (let num_visits = snd query_range - search_range_start_idx + 1 in
         aggregateValueForDerivedAggregateViaColumnAccess t cur_node_idx num_visits)
      else if fan_out t = 0 then Inl DivisionByZero
      else
        (let child_indexes = computeChildIndexes t cur_node_idx cur_node_depth;
             pivot_idx = search_range_start_idx +
               (search_range_end_idx - search_range_start_idx) div int (fan_out t)
         in bind_result
              (collect_results
                 (map (\<lambda>(child_index, child_search_start_idx, child_search_end_idx).
                         searchForDerivedAggregate t query_range child_index (cur_node_depth + 1)
                           child_search_start_idx child_search_end_idx)
                      (zip child_indexes
                         (childSearchRanges (length child_indexes) pivot_idx search_range_end_idx
                            search_range_start_idx pivot_idx))))
              (\<lambda>child_vals. Inr (aggregateValueForDerivedAggregate t child_vals))))"
  by pat_completeness auto
termination
proof (relation "measure (\<lambda>(t, query_range, cur_node_idx, cur_node_depth, s, e).
                            unat (leaf_depth t - cur_node_depth))")
  show "wf (measure (\<lambda>(t, query_range, cur_node_idx, cur_node_depth, s, e).
                       unat (leaf_depth t - cur_node_depth)))"
    by simp
next
  fix t :: SegmentTree and cur_node_depth :: "64 word"
  fix query_range :: "int \<times> int" and cur_node_idx s e :: int
  fix child_index child_search_start_idx child_search_end_idx :: int
  assume "cur_node_depth \<noteq> leaf_depth t"
  then have "leaf_depth t - cur_node_depth \<noteq> 0"
    by simp
  then have less: "unat (leaf_depth t - cur_node_depth - 1) < unat (leaf_depth t - cur_node_depth)"
    by (simp add: unat_minus_one unat_gt_0)
  have eq: "leaf_depth t - (cur_node_depth + 1) = leaf_depth t - cur_node_depth - 1"
    by (rule diff_diff_eq [symmetric])
  have "unat (leaf_depth t - (cur_node_depth + 1)) < unat (leaf_depth t - cur_node_depth)"
    unfolding eq by (rule less)
  then show "((t, query_range, child_index, cur_node_depth + 1,
               child_search_start_idx, child_search_end_idx),
              (t, query_range, cur_node_idx, cur_node_depth, s, e))
             \<in> measure (\<lambda>(t, query_range, cur_node_idx, cur_node_depth, s, e).
                          unat (leaf_depth t - cur_node_depth))"
    by simp
qed

subsection \<open>Double arithmetic\<close>

text \<open>
  The decimal branch of \<open>query\<close> computes in \<open>double\<close>. A finite \<open>double\<close> is a rational
  number, and a conversion to \<open>double\<close> or a division of two of them delivers the
  \<open>double\<close> nearest to the exact result, of two nearest ones the one with the even
  significand (IEEE 754 binary64 in its default rounding mode). \<open>binary_exponent a\<close> is
  the exponent \<open>e\<close> with \<open>2^e \<le> a < 2^(e+1)\<close>; a significand has 53 bits, so the
  doubles from \<open>2^e\<close> to \<open>2^(e+1)\<close> are \<open>2^(e-52)\<close> apart. The range of the exponent is
  not bounded: with 64-bit sums and counts and a scale from 0 to 22 no intermediate
  result of \<open>query\<close> leaves the normal range of a \<open>double\<close>.
\<close>

definition binary_exponent :: "rat \<Rightarrow> int" where
  "binary_exponent a =
     (if 1 \<le> a then bitlen \<lfloor>a\<rfloor> - 1 else - bitlen (\<lceil>1 / a\<rceil> - 1))"

definition round_half_even :: "rat \<Rightarrow> int" where
  "round_half_even m =
     (let lower = \<lfloor>m\<rfloor>; rest = m - of_int lower in
      if rest < 1 / 2 then lower
      else if 1 / 2 < rest then lower + 1
      else if even lower then lower else lower + 1)"

definition round_to_double :: "rat \<Rightarrow> rat" where
  "round_to_double x =
     (if x = 0 then 0
      else (let ulp = 2 powi (binary_exponent \<bar>x\<bar> - 52) in
            sgn x * of_int (round_half_even (\<bar>x\<bar> / ulp)) * ulp))"

text \<open>
  The conversion of a \<open>double\<close> to an integer type drops the fraction; it is
  undefined where the integer type cannot hold the result.
\<close>

definition truncate_towards_zero :: "rat \<Rightarrow> int" where
  "truncate_towards_zero q = (if 0 \<le> q then \<lfloor>q\<rfloor> else \<lceil>q\<rceil>)"

definition double_to_integer :: "TypeTraits \<Rightarrow> rat \<Rightarrow> error + int" where
  "double_to_integer integer_type x =
     (if numeric_min integer_type \<le> truncate_towards_zero x \<and>
         truncate_towards_zero x \<le> numeric_max integer_type
      then Inr (truncate_towards_zero x) else Inl UndefinedConversion)"

text \<open>
  \<open>pow(10, scale)\<close>: the powers of ten from \<open>10^0\<close> to \<open>10^22\<close> are doubles, which
  \<open>pow\<close> is taken to return; no other power of ten is one.
\<close>

definition pow_of_ten :: "int \<Rightarrow> error + rat" where
  "pow_of_ten scale =
     (if 0 \<le> scale \<and> scale \<le> 22 then Inr (10 ^ nat scale) else Inl InexactPow)"

subsection \<open>The query\<close>

text \<open>
  In the range check of \<open>query\<close> the comparison with \<open>leaf_size_\<close> is unsigned; it
  is reached only with \<open>0 \<le> lo \<le> hi\<close>, where it is the comparison of the integers.
  The arithmetic of the AVG result. With an integer accumulator \<open>sum / count\<close> truncates
  towards zero. The decimal branch converts the sum to \<open>double\<close>, divides it by
  \<open>pow(10, scale)\<close> and then by the count, which the division converts to \<open>double\<close>,
  and the \<open>return\<close> converts the quotient to the accumulator type.
\<close>

definition trunc_div :: "int \<Rightarrow> int \<Rightarrow> int" where
  "trunc_div sum_val count_val =
     (if (sum_val < 0) = (count_val < 0) then \<bar>sum_val\<bar> div \<bar>count_val\<bar>
      else - (\<bar>sum_val\<bar> div \<bar>count_val\<bar>))"

definition query :: "SegmentTree \<Rightarrow> int \<times> int \<Rightarrow> error + int" where
  "query t query_range =
     (if snd query_range < fst query_range \<or> fst query_range < 0 \<or>
         leaf_size t < snd query_range
      then Inr (null_val t)
      else if agg_type t = AVG_agg then
        bind_result (searchForDerivedAggregate t query_range 0 0 0 (leaf_size t))
          (\<lambda>sum_and_count_pair.
             if sum_field sum_and_count_pair = null_val t then Inr (null_val t)
             else if count_field sum_and_count_pair = 0 then Inr 0
             else if is_decimal (input_col_ti t) then
               bind_result (pow_of_ten (get_scale (input_col_ti t))) (\<lambda>scale_factor.
                 double_to_integer (AGG_TYPE t)
                   (round_to_double
                      (round_to_double
                         (round_to_double (of_int (sum_field sum_and_count_pair)) /
                          scale_factor) /
                       round_to_double (of_int (count_field sum_and_count_pair)))))
             else Inr (trunc_div (sum_field sum_and_count_pair)
                         (count_field sum_and_count_pair)))
      else
        bind_result (search t query_range 0 0 0 (leaf_size t))
          (\<lambda>res.
             if res = null_val t then
               (case agg_type t of
                  MIN_agg \<Rightarrow> Inr (input_type_null_val t)
                | MAX_agg \<Rightarrow> Inr (input_type_null_val t)
                | _ \<Rightarrow> Inr (null_val t))
             else Inr res))"

subsection \<open>Constructor\<close>

text \<open>
  \<open>SegmentTree_members\<close> is the tree state that the member initialisers and the
  assignments of the constructor set up before the node buffer is allocated; the null
  range hint that the caller passes is overwritten and so is no argument of it.
  \<open>int64_t\<close> has the limits \<open>INT64_MAX\<close> and \<open>INT64_MIN\<close>. In \<open>SegmentTree_new\<close>,
  \<open>CHECK_GT\<close> aborts on a non-positive element count. \<open>fan_out_\<close> is a \<open>size_t\<close> and
  the parameter of \<open>findMaxTreeHeight\<close> an \<open>int\<close>: the call keeps the low 32 bits. The
  first argument bounds the depth of the recursion of \<open>build\<close>; the two after it stand
  for the template arguments.
\<close>

definition SegmentTree_members ::
  "TypeTraits \<Rightarrow> TypeTraits \<Rightarrow> int list \<Rightarrow> SQLTypeInfo \<Rightarrow> int list \<Rightarrow> int list \<Rightarrow>
   int \<Rightarrow> SqlWindowFunctionKind \<Rightarrow> nat \<Rightarrow> 64 word \<times> (int \<times> int) \<Rightarrow> SegmentTree" where
  "SegmentTree_members input_type agg_type_traits input_col_buf_arg input_col_ti_arg
     original_input_col_idx_buf_arg ordered_input_col_idx_buf_arg
     num_elems_arg agg_type_arg fan_out_arg max_tree_height_and_leaf_range =
     \<lparr>INPUT_TYPE = input_type,
      AGG_TYPE = agg_type_traits,
      input_col_buf = input_col_buf_arg,
      input_col_ti = input_col_ti_arg,
      original_input_col_idx_buf = original_input_col_idx_buf_arg,
      ordered_input_col_idx_buf = ordered_input_col_idx_buf_arg,
      num_elems = num_elems_arg,
      fan_out = fan_out_arg,
      leaf_size = snd (snd max_tree_height_and_leaf_range) -
                  fst (snd max_tree_height_and_leaf_range),
      agg_type = agg_type_arg,
      leaf_depth = fst max_tree_height_and_leaf_range,
      leaf_range = snd max_tree_height_and_leaf_range,
      null_range = (2 ^ 63 - 1, - (2 ^ 63)),
      tree_size = snd (snd max_tree_height_and_leaf_range),
      derived_aggregated = [],
      aggregated_values = [],
      invalid_val =
        (if agg_type_arg = MIN_agg then numeric_max input_type
         else if agg_type_arg = MAX_agg then numeric_min input_type
         else 0),
      input_type_null_val = inline_null_value input_type,
      null_val = inline_null_value agg_type_traits\<rparr>"

definition SegmentTree_new ::
  "nat \<Rightarrow> TypeTraits \<Rightarrow> TypeTraits \<Rightarrow> int list \<Rightarrow> SQLTypeInfo \<Rightarrow> int list \<Rightarrow> int list \<Rightarrow>
   int \<times> int \<Rightarrow> int \<Rightarrow> SqlWindowFunctionKind \<Rightarrow> nat \<Rightarrow> (error + SegmentTree) option" where
  "SegmentTree_new fuel input_type agg_type_traits input_col_buf_arg input_col_ti_arg
     original_input_col_idx_buf_arg ordered_input_col_idx_buf_arg order_col_null_range
     num_elems_arg agg_type_arg fan_out_arg =
     (if \<not> 0 < num_elems_arg then Some (Inl CheckFailed)
      else
        (case findMaxTreeHeight num_elems_arg (sint (word_of_nat fan_out_arg :: 32 word)) of
           None \<Rightarrow> None
         | Some (Inl e) \<Rightarrow> Some (Inl e)
         | Some (Inr max_tree_height_and_leaf_range) \<Rightarrow>
             (let t = SegmentTree_members input_type agg_type_traits input_col_buf_arg
                        input_col_ti_arg original_input_col_idx_buf_arg
                        ordered_input_col_idx_buf_arg num_elems_arg agg_type_arg fan_out_arg
                        max_tree_height_and_leaf_range
              in if agg_type_arg = AVG_agg then
                   (case buildForDerivedAggregate fuel
                           (t\<lparr>derived_aggregated := replicate (nat (tree_size t)) None\<rparr>) 0 0 of
                      None \<Rightarrow> None
                    | Some (Inl e) \<Rightarrow> Some (Inl e)
                    | Some (Inr (root_value, t')) \<Rightarrow> Some (Inr t'))
                 else
                   (case build fuel
                           (t\<lparr>aggregated_values := replicate (nat (tree_size t)) None\<rparr>) 0 0 of
                      None \<Rightarrow> None
                    | Some (Inl e) \<Rightarrow> Some (Inl e)
                    | Some (Inr (root_value, t')) \<Rightarrow> Some (Inr t')))))"

text \<open>Running an operation on what the constructor returned.\<close>

definition on_tree ::
  "(error + SegmentTree) option \<Rightarrow> (SegmentTree \<Rightarrow> error + 'a) \<Rightarrow> (error + 'a) option" where
  "on_tree constructed f =
     (case constructed of
        None \<Rightarrow> None
      | Some (Inl e) \<Rightarrow> Some (Inl e)
      | Some (Inr t) \<Rightarrow> Some (f t))"

text \<open>The instantiation \<open>SegmentTree<int64_t, int64_t>\<close>; a null \<open>BIGINT\<close> is \<open>INT64_MIN\<close>.\<close>

definition int64_traits :: TypeTraits where
  "int64_traits = \<lparr>numeric_max = 2 ^ 63 - 1, numeric_min = - (2 ^ 63),
                    inline_null_value = - (2 ^ 63)\<rparr>"

definition NULL_BIGINT :: int where
  "NULL_BIGINT = - (2 ^ 63)"

definition kBIGINT :: SQLTypeInfo where
  "kBIGINT = \<lparr>is_decimal = False, get_scale = 0\<rparr>"

subsection \<open>The linear scan of the specification\<close>

text \<open>The power of ten by which the specification descales a decimal sum.\<close>

definition pow10 :: "int \<Rightarrow> rat" where
  "pow10 scale = (if 0 \<le> scale then 10 ^ nat scale else 1 / 10 ^ nat (- scale))"

text \<open>
  The reference of the build/query consistency property, following the words of the
  specification and not the code of \<open>search\<close>: the leaf value of a slot is resolved as
  the leaf case of the builder describes it (padding beyond the element count is the
  invalid sentinel, a null input is the null sentinel, COUNT stores 1 for a present
  value, AVG a pair of the value and a count of 1), the slots \<open>lo..hi\<close> are scanned in
  order, combined by the combination rule, and the result is post-processed as at the
  top level of \<open>query\<close>, the quotients taken exactly and cut to an integer.
\<close>

definition spec_resolve :: "SegmentTree \<Rightarrow> int \<Rightarrow> error + int" where
  "spec_resolve t sorted_position =
     bind_result (refine_input_col_idx t sorted_position)
       (read_input ColumnBufferOutOfBounds (input_col_buf t))"

definition spec_leaf_value :: "SegmentTree \<Rightarrow> int \<Rightarrow> error + int" where
  "spec_leaf_value t slot =
     (if num_elems t \<le> slot then Inr (invalid_val t)
      else bind_result (spec_resolve t slot) (\<lambda>v.
             Inr (if v = input_type_null_val t then null_val t
                  else if agg_type t = COUNT_agg then 1 else v)))"

definition spec_leaf_pair :: "SegmentTree \<Rightarrow> int \<Rightarrow> error + SumAndCountPair" where
  "spec_leaf_pair t slot =
     (if num_elems t \<le> slot then Inr \<lparr>sum_field = invalid_val t, count_field = 0\<rparr>
      else bind_result (spec_resolve t slot) (\<lambda>v.
             Inr (if v = input_type_null_val t then \<lparr>sum_field = null_val t, count_field = 0\<rparr>
                  else \<lparr>sum_field = v, count_field = 1\<rparr>)))"

text \<open>
  The combination rule in the words of the specification: a value participates only if
  it is neither the invalid nor the null sentinel; if no input participates the result
  is the null sentinel; MIN and MAX are the minimum and the maximum of the participating
  values, SUM and COUNT their sum; AVG adds the sums and the counts of the pairs whose
  sum field participates.
\<close>

definition spec_participates :: "SegmentTree \<Rightarrow> int \<Rightarrow> bool" where
  "spec_participates t v \<longleftrightarrow> v \<noteq> invalid_val t \<and> v \<noteq> null_val t"

definition spec_combine :: "SegmentTree \<Rightarrow> int list \<Rightarrow> int" where
  "spec_combine t vals =
     (case filter (spec_participates t) vals of
        [] \<Rightarrow> null_val t
      | v # vs \<Rightarrow>
          (if agg_type t = MIN_agg then fold min vs v
           else if agg_type t = MAX_agg then fold max vs v
           else sum_list (v # vs)))"

definition spec_combine_pairs :: "SegmentTree \<Rightarrow> SumAndCountPair list \<Rightarrow> SumAndCountPair" where
  "spec_combine_pairs t pairs =
     (case filter (\<lambda>p. spec_participates t (sum_field p)) pairs of
        [] \<Rightarrow> \<lparr>sum_field = null_val t, count_field = 0\<rparr>
      | ps \<Rightarrow> \<lparr>sum_field = sum_list (map sum_field ps),
                count_field = sum_list (map count_field ps)\<rparr>)"

definition spec_linear_scan :: "SegmentTree \<Rightarrow> int \<times> int \<Rightarrow> error + int" where
  "spec_linear_scan t query_range =
     (if agg_type t = AVG_agg then
        bind_result (collect_results (map (spec_leaf_pair t) [fst query_range .. snd query_range]))
          (\<lambda>pairs.
             let p = spec_combine_pairs t pairs in
             if sum_field p = null_val t then Inr (null_val t)
             else if count_field p = 0 then Inr 0
             else if is_decimal (input_col_ti t) then
               Inr (truncate_towards_zero
                      ((of_int (sum_field p) / pow10 (get_scale (input_col_ti t))) /
                       of_int (count_field p)))
             else Inr (trunc_div (sum_field p) (count_field p)))
      else
        bind_result (collect_results (map (spec_leaf_value t) [fst query_range .. snd query_range]))
          (\<lambda>vals.
             let res = spec_combine t vals in
             if res = null_val t \<and> (agg_type t = MIN_agg \<or> agg_type t = MAX_agg)
             then Inr (input_type_null_val t) else Inr res))"

subsection \<open>Concrete trees\<close>

text \<open>
  The concrete scenario of the specification: seven elements, fan-out 2, the values
  \<open>[1, null, 3, 4, null, 6, 7]\<close> in sorted order under the identity indirection, with
  index arrays of exactly seven entries. The tree has depth 3, so the recursion of
  \<open>build\<close> is four calls deep.
\<close>

definition spec_scenario :: "SqlWindowFunctionKind \<Rightarrow> (error + SegmentTree) option" where
  "spec_scenario agg =
     SegmentTree_new 4 int64_traits int64_traits
       [1, NULL_BIGINT, 3, 4, NULL_BIGINT, 6, 7] kBIGINT
       [0, 1, 2, 3, 4, 5, 6] [0, 1, 2, 3, 4, 5, 6] (0, 0) 7 agg 2"

text \<open>A partition of two rows, both null, under the identity indirection, fan-out 2.\<close>

definition all_null_pair :: "SqlWindowFunctionKind \<Rightarrow> (error + SegmentTree) option" where
  "all_null_pair agg =
     SegmentTree_new 2 int64_traits int64_traits
       [NULL_BIGINT, NULL_BIGINT] kBIGINT [0, 1] [0, 1] (0, 0) 2 agg 2"



text \<open>Five rows without nulls, identity indirection, fan-out 2.\<close>

definition five_rows :: "SqlWindowFunctionKind \<Rightarrow> (error + SegmentTree) option" where
  "five_rows agg =
     SegmentTree_new 3 int64_traits int64_traits [1, 2, 3, 4, 5] kBIGINT
       [0, 1, 2, 3, 4] [0, 1, 2, 3, 4] (0, 0) 5 agg 2"

text \<open>
  A partition of two null rows of an \<open>INT\<close> column that also holds a value outside the
  partition: the original index array points at the positions 1 and 2 of the column. The
  instantiation is \<open>SegmentTree<int32_t, int64_t>\<close>; a null \<open>INT\<close> is \<open>INT32_MIN\<close>.
\<close>

definition int32_traits :: TypeTraits where
  "int32_traits = \<lparr>numeric_max = 2 ^ 31 - 1, numeric_min = - (2 ^ 31),
                    inline_null_value = - (2 ^ 31)\<rparr>"

definition NULL_INT :: int where
  "NULL_INT = - (2 ^ 31)"

definition null_rows :: "SqlWindowFunctionKind \<Rightarrow> (error + SegmentTree) option" where
  "null_rows agg =
     SegmentTree_new 2 int32_traits int64_traits [5, NULL_INT, NULL_INT] kBIGINT
       [1, 2] [0, 1] (0, 0) 2 agg 2"

text \<open>A partition of four rows whose first two are null, identity indirection, fan-out 2.\<close>

definition nulls_first :: "SqlWindowFunctionKind \<Rightarrow> (error + SegmentTree) option" where
  "nulls_first agg =
     SegmentTree_new 3 int64_traits int64_traits [NULL_BIGINT, NULL_BIGINT, 3, 4] kBIGINT
       [0, 1, 2, 3] [0, 1, 2, 3] (0, 0) 4 agg 2"


text \<open>The state the constructor leaves for the SUM tree of the concrete scenario.\<close>

definition scenario_sum_tree :: SegmentTree where
  "scenario_sum_tree =
     \<lparr>INPUT_TYPE = int64_traits,
      AGG_TYPE = int64_traits,
      input_col_buf = [1, NULL_BIGINT, 3, 4, NULL_BIGINT, 6, 7],
      input_col_ti = kBIGINT,
      original_input_col_idx_buf = [0, 1, 2, 3, 4, 5, 6],
      ordered_input_col_idx_buf = [0, 1, 2, 3, 4, 5, 6],
      num_elems = 7,
      fan_out = 2,
      leaf_size = 8,
      agg_type = SUM_agg,
      leaf_depth = 3,
      leaf_range = (7, 15),
      null_range = (2 ^ 63 - 1, - (2 ^ 63)),
      tree_size = 15,
      derived_aggregated = [],
      aggregated_values =
        [Some 21, Some 8, Some 13, Some 1, Some 7, Some 6, Some 7,
         Some 1, Some NULL_BIGINT, Some 3, Some 4, Some NULL_BIGINT, Some 6, Some 7, Some 0],
      invalid_val = 0,
      input_type_null_val = NULL_BIGINT,
      null_val = NULL_BIGINT\<rparr>"

text \<open>The states the constructor leaves for three of the trees above.\<close>

definition null_rows_min_tree :: SegmentTree where
  "null_rows_min_tree =
     \<lparr>INPUT_TYPE = int32_traits,
      AGG_TYPE = int64_traits,
      input_col_buf = [5, NULL_INT, NULL_INT],
      input_col_ti = kBIGINT,
      original_input_col_idx_buf = [1, 2],
      ordered_input_col_idx_buf = [0, 1],
      num_elems = 2,
      fan_out = 2,
      leaf_size = 2,
      agg_type = MIN_agg,
      leaf_depth = 1,
      leaf_range = (1, 3),
      null_range = (2 ^ 63 - 1, - (2 ^ 63)),
      tree_size = 3,
      derived_aggregated = [],
      aggregated_values = [Some NULL_BIGINT, Some NULL_BIGINT, Some NULL_BIGINT],
      invalid_val = 2 ^ 31 - 1,
      input_type_null_val = NULL_INT,
      null_val = NULL_BIGINT\<rparr>"

definition nulls_first_sum_tree :: SegmentTree where
  "nulls_first_sum_tree =
     \<lparr>INPUT_TYPE = int64_traits,
      AGG_TYPE = int64_traits,
      input_col_buf = [NULL_BIGINT, NULL_BIGINT, 3, 4],
      input_col_ti = kBIGINT,
      original_input_col_idx_buf = [0, 1, 2, 3],
      ordered_input_col_idx_buf = [0, 1, 2, 3],
      num_elems = 4,
      fan_out = 2,
      leaf_size = 4,
      agg_type = SUM_agg,
      leaf_depth = 2,
      leaf_range = (3, 7),
      null_range = (2 ^ 63 - 1, - (2 ^ 63)),
      tree_size = 7,
      derived_aggregated = [],
      aggregated_values =
        [Some 7, Some NULL_BIGINT, Some 7, Some NULL_BIGINT, Some NULL_BIGINT, Some 3, Some 4],
      invalid_val = 0,
      input_type_null_val = NULL_BIGINT,
      null_val = NULL_BIGINT\<rparr>"


subsection \<open>Notions used in the proofs\<close>

text \<open>
  The number of nodes above level \<open>k\<close> of a complete tree of fan-out \<open>f\<close>, which is
  also the index of the first node of level \<open>k\<close>.
\<close>

definition nodes_above :: "nat \<Rightarrow> nat \<Rightarrow> int" where
  "nodes_above f k = (\<Sum>i<k. int f ^ i)"

text \<open>Two tree states that differ in the cells of one node buffer only.\<close>

definition nodes_replaced :: "SegmentTree \<Rightarrow> SegmentTree \<Rightarrow> bool" where
  "nodes_replaced t t' \<longleftrightarrow>
     (\<exists>buf. t' = t\<lparr>aggregated_values := buf\<rparr> \<and> length buf = length (aggregated_values t))"

definition pairs_replaced :: "SegmentTree \<Rightarrow> SegmentTree \<Rightarrow> bool" where
  "pairs_replaced t t' \<longleftrightarrow>
     (\<exists>buf. t' = t\<lparr>derived_aggregated := buf\<rparr> \<and> length buf = length (derived_aggregated t))"

text \<open>
  A value that the combination rules leave out, node buffers all of whose written cells
  hold such values, and a partition all of whose rows are null: every sorted position
  below the element count that the two index arrays resolve to a value of the column
  resolves to the null sentinel of the input type.
\<close>

definition excluded :: "SegmentTree \<Rightarrow> int \<Rightarrow> bool" where
  "excluded t v \<longleftrightarrow> v = null_val t \<or> v = invalid_val t"

definition cells_excluded :: "SegmentTree \<Rightarrow> int option list \<Rightarrow> bool" where
  "cells_excluded t buf \<longleftrightarrow> (\<forall>c\<in>set buf. case c of None \<Rightarrow> True | Some v \<Rightarrow> excluded t v)"

definition pair_cells_excluded :: "SegmentTree \<Rightarrow> SumAndCountPair option list \<Rightarrow> bool" where
  "pair_cells_excluded t buf \<longleftrightarrow>
     (\<forall>c\<in>set buf. case c of None \<Rightarrow> True | Some p \<Rightarrow> excluded t (sum_field p))"

definition all_rows_null :: "SegmentTree \<Rightarrow> bool" where
  "all_rows_null t \<longleftrightarrow>
     (\<forall>slot v. 0 \<le> slot \<and> slot < num_elems t \<and> spec_resolve t slot = Inr v \<longrightarrow>
               v = input_type_null_val t)"

text \<open>The null result of a query after the post-processing of \<open>query\<close>.\<close>

definition null_result :: "SegmentTree \<Rightarrow> int" where
  "null_result t =
     (if agg_type t = MIN_agg \<or> agg_type t = MAX_agg then input_type_null_val t else null_val t)"

section \<open>Properties\<close>

subsection \<open>Input descriptors\<close>

text \<open>
  C10. Two \<open>InputDescriptor\<close>s compare equal exactly when their table ids and their nest
  levels are equal, that is, when they are the same value; two \<open>InputColDescriptor\<close>s
  compare equal exactly when their column ids and their contained descriptors are equal;
  and descriptors that compare equal have the same hash.
\<close>

theorem descriptor_equality_and_hash:
  "(InputDescriptor_eq a b \<longleftrightarrow> table_id a = table_id b \<and> nest_level a = nest_level b) \<and>
   (InputDescriptor_eq a b \<longleftrightarrow> a = b) \<and>
   (InputColDescriptor_eq c d \<longleftrightarrow> col_id c = col_id d \<and> input_desc c = input_desc d) \<and>
   (InputColDescriptor_eq c d \<longleftrightarrow> c = d) \<and>
   (InputDescriptor_eq a b \<longrightarrow> InputDescriptor_hash a = InputDescriptor_hash b) \<and>
   (InputColDescriptor_eq c d \<longrightarrow> InputColDescriptor_hash c = InputColDescriptor_hash d)"
proof -
  have eq_desc: "InputDescriptor_eq x y \<longleftrightarrow> x = y" for x y
    by (cases x, cases y) (simp add: InputDescriptor_eq_def)
  have eq_col: "InputColDescriptor_eq x y \<longleftrightarrow> x = y" for x y
    by (cases x, cases y) (simp add: InputColDescriptor_eq_def eq_desc)
  show ?thesis
    unfolding eq_desc eq_col
    by (auto simp: InputDescriptor.equality InputColDescriptor.equality)
qed

theorem descriptor_equality_and_hash_witness:
  "InputDescriptor_eq \<lparr>table_id = 3, nest_level = 1\<rparr> \<lparr>table_id = 3, nest_level = 1\<rparr> \<and>
   InputDescriptor_hash \<lparr>table_id = 3, nest_level = 1\<rparr> =
     InputDescriptor_hash \<lparr>table_id = 3, nest_level = 1\<rparr> \<and>
   InputDescriptor_hash \<lparr>table_id = 3, nest_level = 1\<rparr> = 12884901889 \<and>
   InputColDescriptor_eq \<lparr>col_id = 5, input_desc = \<lparr>table_id = 3, nest_level = 1\<rparr>\<rparr>
     \<lparr>col_id = 5, input_desc = \<lparr>table_id = 3, nest_level = 1\<rparr>\<rparr> \<and>
   InputColDescriptor_hash \<lparr>col_id = 5, input_desc = \<lparr>table_id = 3, nest_level = 1\<rparr>\<rparr> =
     12885229569 \<and>
   \<not> InputDescriptor_eq \<lparr>table_id = 3, nest_level = 1\<rparr> \<lparr>table_id = 3, nest_level = 2\<rparr>"
  using descriptor_equality_and_hash
    [of "\<lparr>table_id = 3, nest_level = 1\<rparr>" "\<lparr>table_id = 3, nest_level = 1\<rparr>"
        "\<lparr>col_id = 5, input_desc = \<lparr>table_id = 3, nest_level = 1\<rparr>\<rparr>"
        "\<lparr>col_id = 5, input_desc = \<lparr>table_id = 3, nest_level = 1\<rparr>\<rparr>"]
  by (simp add: InputDescriptor_eq_def InputColDescriptor_eq_def InputDescriptor_hash_def
        InputColDescriptor_hash_def)

subsection \<open>Malformed query ranges\<close>

text \<open>
  C5. A query range with \<open>lo > hi\<close>, \<open>lo < 0\<close> or \<open>hi > leafSize\<close> gets the null
  sentinel of the accumulator, for every aggregate kind and whatever the node buffers,
  the column buffer and the index arrays hold: the result is the same when every one of
  them is replaced by any other, the empty one included, on which each read is an error.
\<close>

theorem query_malformed_range:
  assumes "snd query_range < fst query_range \<or> fst query_range < 0 \<or>
           leaf_size t < snd query_range"
  shows "query t query_range = Inr (null_val t) \<and>
         query (t\<lparr>aggregated_values := nodes, derived_aggregated := pairs,
                   input_col_buf := column, original_input_col_idx_buf := original,
                   ordered_input_col_idx_buf := ordered\<rparr>) query_range = Inr (null_val t)"
  using assms by (simp add: query_def)

lemma spec_scenario_SUM: "spec_scenario SUM_agg = Some (Inr scenario_sum_tree)"
  by code_simp

theorem query_malformed_range_witness:
  "(snd (3 :: int, 2 :: int) < fst (3 :: int, 2 :: int) \<or> fst (3 :: int, 2 :: int) < 0 \<or>
      leaf_size scenario_sum_tree < snd (3 :: int, 2 :: int)) \<and>
   query scenario_sum_tree (3, 2) = Inr NULL_BIGINT \<and>
   query scenario_sum_tree (- 1, 2) = Inr NULL_BIGINT \<and>
   query scenario_sum_tree (0, 9) = Inr NULL_BIGINT"
  using query_malformed_range [of "(3, 2)" scenario_sum_tree "[]" "[]" "[]" "[]" "[]"]
    query_malformed_range [of "(- 1, 2)" scenario_sum_tree "[]" "[]" "[]" "[]" "[]"]
    query_malformed_range [of "(0, 9)" scenario_sum_tree "[]" "[]" "[]" "[]" "[]"]
  by (simp add: scenario_sum_tree_def)

subsection \<open>Tree geometry\<close>

text \<open>
  C2. The shape computation is claimed to give at least \<open>elementCount\<close> leaf slots. For
  five elements and fan-out 2 it returns depth 2 and the leaf range \<open>[3, 7)\<close>: the tree
  that the constructor builds has four leaf slots for five elements.
\<close>

theorem findMaxTreeHeight_five_elements:
  "findMaxTreeHeight 5 2 = Some (Inr (2, (3, 7))) \<and>
   on_tree (five_rows SUM_agg) (\<lambda>t. Inr (leaf_size t, num_elems t, leaf_size t < num_elems t)) =
     Some (Inr (4, 5, True))"
  by code_simp

text \<open>
  The loop of \<open>findMaxTreeHeight\<close> returns, and what it returns, where the fan-out times
  the element count is below \<open>2^53\<close>: every power that the loop asks for is then below
  \<open>2^53\<close>, and no sum leaves the 64 bits.
\<close>

lemma nodes_above_Suc: "nodes_above f (Suc k) = nodes_above f k + int (f ^ k)"
  by (simp add: nodes_above_def)

lemma nodes_above_nonneg: "0 \<le> nodes_above f k"
  by (simp add: nodes_above_def sum_nonneg)

lemma nodes_above_ge: "1 \<le> f \<Longrightarrow> int k \<le> nodes_above f k"
proof (induction k)
  case 0
  then show ?case by (simp add: nodes_above_def)
next
  case (Suc k)
  have "1 \<le> int (f ^ k)" using Suc.prems by simp
  moreover have "int k \<le> nodes_above f k" using Suc by simp
  ultimately show ?case unfolding nodes_above_Suc by simp
qed

lemma sint_word_of_int_small:
  assumes "0 \<le> x" and "x < 2 ^ 63"
  shows "sint (word_of_int x :: 64 word) = x"
  using assms by (simp add: signed_of_int signed_take_bit_int_eq_self)

lemma fan_out_as_int:
  assumes "f < 2 ^ 31"
  shows "sint (word_of_nat f :: 32 word) = int f"
proof -
  have "(word_of_nat f :: 32 word) = word_of_int (int f)" by simp
  moreover from assms have "int f < 2 ^ 31"
    by (simp only: of_nat_less_numeral_power_cancel_iff)
  ultimately show ?thesis
    by (simp add: signed_of_int signed_take_bit_int_eq_self del: of_int_of_nat_eq)
qed

lemma unat_of_nat_depth:
  assumes "int k < 2 ^ 53"
  shows "unat (of_nat k :: 64 word) = k" and "k < 2 ^ 53"
proof -
  from assms show small: "k < 2 ^ 53"
    by (simp only: of_nat_less_numeral_power_cancel_iff)
  have "(2 :: nat) ^ 53 < 2 ^ LENGTH(64)" by simp
  with small have "k < 2 ^ LENGTH(64)" by (rule less_trans)
  then show "unat (of_nat k :: 64 word) = k"
    by (rule of_nat_inverse [OF refl])
qed

lemma findMaxTreeHeight_loop_step:
  assumes "\<not> n < nodes_above f (Suc k)" and "1 \<le> f" and "int f * n < 2 ^ 53"
  shows "findMaxTreeHeight_loop n (int f) (nodes_above f (Suc k)) (of_nat k) pair =
         findMaxTreeHeight_loop n (int f) (nodes_above f (Suc (Suc k))) (of_nat (Suc k))
           (nodes_above f (Suc k), nodes_above f (Suc (Suc k)))"
proof -
  from assms(1) have reached: "nodes_above f (Suc k) \<le> n" by simp
  have "int (Suc k) \<le> nodes_above f (Suc k)"
    using assms(2) by (rule nodes_above_ge)
  with reached have count: "int (Suc k) \<le> n" by linarith
  then have pos: "0 < n" by simp
  from assms(2) have "1 \<le> int f" by simp
  with pos have "1 * n \<le> int f * n" by (intro mult_right_mono) simp_all
  with assms(3) have n: "n < 2 ^ 53" by simp
  with count have "int (Suc k) < 2 ^ 53" by linarith
  note depth = unat_of_nat_depth [OF this]
  have w: "(of_nat k + 1 :: 64 word) = of_nat (Suc k)" by simp
  have "int (f ^ k) \<le> nodes_above f (Suc k)"
    unfolding nodes_above_Suc using nodes_above_nonneg [of f k] by simp
  with reached have "int (f ^ k) \<le> n" by linarith
  then have "int f * int (f ^ k) \<le> int f * n"
    by (intro mult_left_mono) simp_all
  with assms(3) have power: "int f ^ Suc k < 2 ^ 53" by simp
  have nonneg: "0 \<le> int f ^ Suc k" by simp
  have "uint (of_nat (Suc k) :: 64 word) = int (Suc k)"
    unfolding uint_nat depth(1) ..
  with \<open>int (Suc k) < 2 ^ 53\<close>
  have exponent: "\<not> 2 ^ 53 \<le> uint (of_nat (Suc k) :: 64 word)" by linarith
  from power nonneg have magnitude: "\<not> 2 ^ 53 \<le> \<bar>int f ^ Suc k\<bar>" by linarith
  from nonneg have sign: "\<not> int f ^ Suc k < 0" by linarith
  have pow: "pow_to_size_t (int f) (of_nat (Suc k)) = Inr (word_of_int (int f ^ Suc k))"
    unfolding pow_to_size_t_def depth(1)
    by (simp only: exponent magnitude sign if_False)
  have step: "nodes_above f (Suc k) + int f ^ Suc k = nodes_above f (Suc (Suc k))"
    by (simp add: nodes_above_Suc)
  have "(2 :: int) ^ 53 + 2 ^ 53 < 2 ^ 63" by simp
  with reached n power have "nodes_above f (Suc k) + int f ^ Suc k < 2 ^ 63" by linarith
  then have "nodes_above f (Suc (Suc k)) < 2 ^ 63"
    unfolding step .
  then have sum: "sint (word_of_int (nodes_above f (Suc k)) + word_of_int (int f ^ Suc k) :: 64 word) =
                  nodes_above f (Suc (Suc k))"
    unfolding of_int_add [symmetric] step
    by (intro sint_word_of_int_small nodes_above_nonneg)
  show ?thesis
    apply (subst findMaxTreeHeight_loop.simps)
    using assms(1) by (simp only: w pow sum if_False sum.case)
qed

lemma findMaxTreeHeight_loop_returns:
  assumes "1 \<le> f" and "int f * n < 2 ^ 53"
  shows "\<exists>k'\<ge>k. findMaxTreeHeight_loop n (int f) (nodes_above f (Suc k)) (of_nat k) pair =
            Some (Inr (of_nat k',
                       if k' = k then pair else (nodes_above f k', nodes_above f (Suc k'))))
          \<and> n < nodes_above f (Suc k') \<and> (k < k' \<longrightarrow> nodes_above f k' \<le> n)"
proof (induction "nat (n + 1 - nodes_above f (Suc k))" arbitrary: k pair rule: less_induct)
  case less
  show ?case
  proof (cases "n < nodes_above f (Suc k)")
    case True
    then show ?thesis
      by (subst findMaxTreeHeight_loop.simps) auto
  next
    case False
    have "1 \<le> f ^ Suc k" using assms(1) by (rule one_le_power)
    then have pos: "1 \<le> int (f ^ Suc k)" by linarith
    have step: "nodes_above f (Suc k) + int (f ^ Suc k) = nodes_above f (Suc (Suc k))"
      by (simp only: nodes_above_Suc)
    have "nat (n + 1 - nodes_above f (Suc (Suc k))) < nat (n + 1 - nodes_above f (Suc k))"
      using False pos unfolding step [symmetric] by linarith
    from less [OF this, of "(nodes_above f (Suc k), nodes_above f (Suc (Suc k)))"]
    obtain k' where k': "Suc k \<le> k'"
      "findMaxTreeHeight_loop n (int f) (nodes_above f (Suc (Suc k))) (of_nat (Suc k))
         (nodes_above f (Suc k), nodes_above f (Suc (Suc k))) =
       Some (Inr (of_nat k',
                  if k' = Suc k then (nodes_above f (Suc k), nodes_above f (Suc (Suc k)))
                  else (nodes_above f k', nodes_above f (Suc k'))))"
      "n < nodes_above f (Suc k')" "Suc k < k' \<longrightarrow> nodes_above f k' \<le> n"
      by blast
    have res: "(if k' = Suc k then (nodes_above f (Suc k), nodes_above f (Suc (Suc k)))
                else (nodes_above f k', nodes_above f (Suc k'))) =
               (nodes_above f k', nodes_above f (Suc k'))"
      by simp
    have "findMaxTreeHeight_loop n (int f) (nodes_above f (Suc k)) (of_nat k) pair =
          Some (Inr (of_nat k', (nodes_above f k', nodes_above f (Suc k'))))"
      unfolding findMaxTreeHeight_loop_step [OF False assms] k'(2) res ..
    moreover have "nodes_above f k' \<le> n"
      using k'(1,4) False by (cases "k' = Suc k") auto
    ultimately show ?thesis
      using k'(1,3) by (intro exI [of _ k']) auto
  qed
qed

lemma findMaxTreeHeight_returns:
  assumes "0 < n" and "1 \<le> f" and "int f * n < 2 ^ 53"
  shows "\<exists>k. 1 \<le> k \<and> unat (of_nat k :: 64 word) = k \<and>
             findMaxTreeHeight n (int f) =
               Some (Inr (of_nat k, (nodes_above f k, nodes_above f (Suc k)))) \<and>
             nodes_above f k \<le> n \<and> n < nodes_above f (Suc k)"
proof -
  have one: "nodes_above f (Suc 0) = 1"
    by (simp add: nodes_above_def)
  from findMaxTreeHeight_loop_returns [OF assms(2,3), of 0 "(0, 0)"]
  obtain k where k: "findMaxTreeHeight_loop n (int f) 1 0 (0, 0) =
      Some (Inr (of_nat k, if k = 0 then (0, 0) else (nodes_above f k, nodes_above f (Suc k))))"
      "n < nodes_above f (Suc k)" "0 < k \<longrightarrow> nodes_above f k \<le> n"
    unfolding one by auto
  have "k \<noteq> 0"
    using k(2) assms(1) one by (cases "k = 0") auto
  then have pos: "1 \<le> k" by simp
  have "int k \<le> nodes_above f k"
    using assms(2) by (rule nodes_above_ge)
  with k(3) pos have count: "int k \<le> n" by linarith
  from assms(2) have "1 \<le> int f" by simp
  with assms(1) have "1 * n \<le> int f * n" by (intro mult_right_mono) simp_all
  with assms(3) count have "int k < 2 ^ 53" by simp
  then have "unat (of_nat k :: 64 word) = k"
    by (rule unat_of_nat_depth)
  moreover have "findMaxTreeHeight n (int f) =
      Some (Inr (of_nat k, (nodes_above f k, nodes_above f (Suc k))))"
    using assms(1) k(1) \<open>k \<noteq> 0\<close> by (simp add: findMaxTreeHeight_def)
  ultimately show ?thesis
    using pos k(2,3) by (intro exI [of _ k]) auto
qed

lemma for_each_child_invariant:
  assumes "for_each_child g s idxs = Some (Inr (vs, s'))"
    and "P s"
    and "\<And>s0 i v s1. P s0 \<Longrightarrow> g s0 i = Some (Inr (v, s1)) \<Longrightarrow> P s1 \<and> Q v"
  shows "P s' \<and> (\<forall>v\<in>set vs. Q v)"
  using assms(1,2)
proof (induction idxs arbitrary: s vs)
  case Nil
  then show ?case by simp
next
  case (Cons i rest)
  from Cons.prems(1) obtain v s1 vs1 where
    first: "g s i = Some (Inr (v, s1))" and
    others: "for_each_child g s1 rest = Some (Inr (vs1, s'))" and
    vs: "vs = v # vs1"
    by (auto split: option.splits sum.splits prod.splits)
  from assms(3) [OF Cons.prems(2) first] have "P s1" and "Q v" by simp_all
  with Cons.IH [OF others] vs show ?case by simp
qed

lemma prepareChildValuesforAggregation_invariant:
  assumes "prepareChildValuesforAggregation b t i d = Some (Inr (vs, s))"
    and "P t"
    and "\<And>s0 j e v s1. P s0 \<Longrightarrow> b s0 j e = Some (Inr (v, s1)) \<Longrightarrow> P s1 \<and> Q v"
  shows "P s \<and> (\<forall>v\<in>set vs. Q v)"
proof (cases "d = 0")
  case True
  with assms(1) have
    "for_each_child (\<lambda>t' k. b t' (int k + 1) (d + 1)) t [0..<fan_out t] = Some (Inr (vs, s))"
    by (simp add: prepareChildValuesforAggregation_def)
  then show ?thesis
    by (rule for_each_child_invariant [where P = P and Q = Q, OF _ assms(2)]) (rule assms(3))
next
  case False
  with assms(1) have
    "for_each_child (\<lambda>t' k. b t' (i * int (fan_out t) + 1 + int k) (d + 1)) t [0..<fan_out t] =
       Some (Inr (vs, s))"
    by (simp add: prepareChildValuesforAggregation_def)
  then show ?thesis
    by (rule for_each_child_invariant [where P = P and Q = Q, OF _ assms(2)]) (rule assms(3))
qed

lemma nodes_replaced_refl: "nodes_replaced t t"
  by (auto simp: nodes_replaced_def intro: exI [of _ "aggregated_values t"])

lemma nodes_replaced_trans: "nodes_replaced t s \<Longrightarrow> nodes_replaced s u \<Longrightarrow> nodes_replaced t u"
  by (auto simp: nodes_replaced_def)

lemma store_aggregated_frame:
  "store_aggregated t i v = Inr (r, t') \<Longrightarrow> nodes_replaced t t'"
  by (auto simp: store_aggregated_def bind_result_def write_node_def nodes_replaced_def
      split: sum.splits if_splits)

lemma build_frame:
  "build fuel t i d = Some (Inr (v, t')) \<Longrightarrow> nodes_replaced t t'"
proof (induction fuel arbitrary: t i d v t')
  case 0
  then show ?case by simp
next
  case (Suc fuel)
  show ?case
  proof (cases "fst (leaf_range t) \<le> i \<and> i \<le> snd (leaf_range t)")
    case True
    with Suc.prems show ?thesis
      by (auto simp: Let_def bind_result_def write_node_def nodes_replaced_def
          split: sum.splits if_splits dest: store_aggregated_frame)
  next
    case False
    with Suc.prems obtain child_vals s where
      kids: "prepareChildValuesforAggregation (build fuel) t i d = Some (Inr (child_vals, s))"
      and store: "store_aggregated s i (aggregateValue s child_vals) = Inr (v, t')"
      by (auto split: option.splits sum.splits prod.splits)
    have step: "nodes_replaced t s1 \<and> True"
      if "nodes_replaced t s0" "build fuel s0 j e = Some (Inr (w, s1))" for s0 j e w s1
      using that Suc.IH nodes_replaced_trans by blast
    have "nodes_replaced t s \<and> (\<forall>v\<in>set child_vals. True)"
      by (rule prepareChildValuesforAggregation_invariant
            [where P = "nodes_replaced t" and Q = "\<lambda>_. True", OF kids nodes_replaced_refl])
         (rule step)
    with store show ?thesis
      using store_aggregated_frame nodes_replaced_trans by blast
  qed
qed


lemma prepareChildValuesforDerivedAggregate_invariant:
  assumes "prepareChildValuesforDerivedAggregate b t i d = Some (Inr (vs, s))"
    and "P t"
    and "\<And>s0 j e v s1. P s0 \<Longrightarrow> b s0 j e = Some (Inr (v, s1)) \<Longrightarrow> P s1 \<and> Q v"
  shows "P s \<and> (\<forall>v\<in>set vs. Q v)"
proof (cases "d = 0")
  case True
  with assms(1) have
    "for_each_child (\<lambda>t' k. b t' (int k + 1) (d + 1)) t [0..<fan_out t] = Some (Inr (vs, s))"
    by (simp add: prepareChildValuesforDerivedAggregate_def)
  then show ?thesis
    by (rule for_each_child_invariant [where P = P and Q = Q, OF _ assms(2)]) (rule assms(3))
next
  case False
  with assms(1) have
    "for_each_child (\<lambda>t' k. b t' (i * int (fan_out t) + 1 + int k) (d + 1)) t [0..<fan_out t] =
       Some (Inr (vs, s))"
    by (simp add: prepareChildValuesforDerivedAggregate_def)
  then show ?thesis
    by (rule for_each_child_invariant [where P = P and Q = Q, OF _ assms(2)]) (rule assms(3))
qed

lemma pairs_replaced_refl: "pairs_replaced t t"
  by (auto simp: pairs_replaced_def intro: exI [of _ "derived_aggregated t"])

lemma pairs_replaced_trans: "pairs_replaced t s \<Longrightarrow> pairs_replaced s u \<Longrightarrow> pairs_replaced t u"
  by (auto simp: pairs_replaced_def)

lemma store_derived_frame:
  "store_derived t i v = Inr (r, t') \<Longrightarrow> pairs_replaced t t'"
  by (auto simp: store_derived_def bind_result_def write_node_def pairs_replaced_def
      split: sum.splits if_splits)

lemma buildForDerivedAggregate_frame:
  "buildForDerivedAggregate fuel t i d = Some (Inr (v, t')) \<Longrightarrow> pairs_replaced t t'"
proof (induction fuel arbitrary: t i d v t')
  case 0
  then show ?case by simp
next
  case (Suc fuel)
  show ?case
  proof (cases "fst (leaf_range t) \<le> i \<and> i \<le> snd (leaf_range t)")
    case True
    with Suc.prems show ?thesis
      by (auto simp: Let_def bind_result_def split: sum.splits if_splits
          dest: store_derived_frame)
  next
    case False
    with Suc.prems obtain child_vals s where
      kids: "prepareChildValuesforDerivedAggregate (buildForDerivedAggregate fuel) t i d =
               Some (Inr (child_vals, s))"
      and store: "store_derived s i (aggregateValueForDerivedAggregate s child_vals) = Inr (v, t')"
      by (auto split: option.splits sum.splits prod.splits)
    have step: "pairs_replaced t s1 \<and> True"
      if "pairs_replaced t s0" "buildForDerivedAggregate fuel s0 j e = Some (Inr (w, s1))"
      for s0 j e w s1
      using that Suc.IH pairs_replaced_trans by blast
    have "pairs_replaced t s \<and> (\<forall>v\<in>set child_vals. True)"
      by (rule prepareChildValuesforDerivedAggregate_invariant
            [where P = "pairs_replaced t" and Q = "\<lambda>_. True", OF kids pairs_replaced_refl])
         (rule step)
    with store show ?thesis
      using store_derived_frame pairs_replaced_trans by blast
  qed
qed

text \<open>
  The construction returns: the recursion of the two builders is as deep as the tree, so
  a bound above the leaf depth lets the constructor come back, with a tree or an error.
\<close>

lemma nodes_above_step: "nodes_above f (Suc j) = int f * nodes_above f j + 1"
proof (induction j)
  case 0
  then show ?case by (simp add: nodes_above_def)
next
  case (Suc j)
  have "nodes_above f (Suc (Suc j)) = nodes_above f (Suc j) + int f ^ Suc j"
    by (simp add: nodes_above_def)
  also have "\<dots> = (int f * nodes_above f j + 1) + int f * int f ^ j"
    using Suc by simp
  also have "\<dots> = int f * (nodes_above f j + int f ^ j) + 1"
    by (simp add: algebra_simps)
  also have "nodes_above f j + int f ^ j = nodes_above f (Suc j)"
    by (simp add: nodes_above_def)
  finally show ?case .
qed

lemma for_each_child_returns:
  assumes "P s"
    and "\<And>s0 i. P s0 \<Longrightarrow> i \<in> set idxs \<Longrightarrow> g s0 i \<noteq> None"
    and "\<And>s0 i v s1. P s0 \<Longrightarrow> g s0 i = Some (Inr (v, s1)) \<Longrightarrow> P s1"
  shows "for_each_child g s idxs \<noteq> None"
  using assms(1,2)
proof (induction idxs arbitrary: s)
  case Nil
  then show ?case by simp
next
  case (Cons i rest)
  from Cons.prems have first: "g s i \<noteq> None" by simp
  show ?case
  proof (cases "g s i")
    case None
    with first show ?thesis by simp
  next
    case (Some r)
    show ?thesis
    proof (cases r)
      case (Inl e)
      with Some show ?thesis by simp
    next
      case (Inr vs)
      obtain v s1 where vs: "vs = (v, s1)" by (cases vs)
      with Some Inr have call: "g s i = Some (Inr (v, s1))" by simp
      from assms(3) [OF Cons.prems(1) call] have "P s1" .
      then have "for_each_child g s1 rest \<noteq> None"
        using Cons.prems(2) by (intro Cons.IH) auto
      with call show ?thesis
        by (auto split: option.splits sum.splits)
    qed
  qed
qed

lemma of_nat_depth_zero:
  assumes "j < 2 ^ 64"
  shows "(of_nat j :: 64 word) = 0 \<longleftrightarrow> j = 0"
proof -
  from assms have "j < 2 ^ LENGTH(64)" by simp
  then have inverse: "unat (of_nat j :: 64 word) = j"
    by (rule of_nat_inverse [OF refl])
  show ?thesis
  proof
    assume "(of_nat j :: 64 word) = 0"
    then have "unat (of_nat j :: 64 word) = 0" by simp
    with inverse show "j = 0" by simp
  next
    assume "j = 0"
    then show "(of_nat j :: 64 word) = 0" by simp
  qed
qed

lemma child_index_level:
  assumes "nodes_above f j \<le> p" and "p < nodes_above f (Suc j)" and "i < f"
  shows "nodes_above f (Suc j) \<le> p * int f + 1 + int i"
    and "p * int f + 1 + int i < nodes_above f (Suc (Suc j))"
proof -
  have up: "nodes_above f (Suc (Suc j)) = int f * nodes_above f (Suc j) + 1"
    and low: "nodes_above f (Suc j) = int f * nodes_above f j + 1"
    by (rule nodes_above_step)+
  have "int f * nodes_above f j \<le> int f * p"
    using assms(1) by (simp add: mult_left_mono)
  then show "nodes_above f (Suc j) \<le> p * int f + 1 + int i"
    unfolding low by (simp add: mult.commute)
  have "p + 1 \<le> nodes_above f (Suc j)" using assms(2) by simp
  then have "int f * (p + 1) \<le> int f * nodes_above f (Suc j)"
    by (simp add: mult_left_mono)
  moreover have "int i < int f" using assms(3) by simp
  ultimately show "p * int f + 1 + int i < nodes_above f (Suc (Suc j))"
    unfolding up by (simp add: algebra_simps)
qed

lemma build_returns:
  assumes "leaf_range t = (nodes_above f k, nodes_above f (Suc k))" and "fan_out t = f"
    and "k < 2 ^ 64" and "j \<le> k"
    and "nodes_above f j \<le> idx" and "idx < nodes_above f (Suc j)"
    and "k - j < fuel"
  shows "build fuel t idx (of_nat j) \<noteq> None"
  using assms
proof (induction fuel arbitrary: t idx j)
  case 0
  then show ?case by simp
next
  case (Suc fuel)
  note shape = Suc.prems(1,2) and small = Suc.prems(3)
  show ?case
  proof (cases "fst (leaf_range t) \<le> idx \<and> idx \<le> snd (leaf_range t)")
    case True
    then show ?thesis by (simp add: Let_def)
  next
    case False
    have "j \<noteq> k"
    proof
      assume "j = k"
      with Suc.prems(5,6) shape(1) False show False by simp
    qed
    with Suc.prems(4) have below: "Suc j \<le> k" by simp
    with Suc.prems(7) have fuel: "k - Suc j < fuel" by linarith
    from below small have "j < 2 ^ 64" by simp
    then have zero: "(of_nat j :: 64 word) = 0 \<longleftrightarrow> j = 0"
      by (rule of_nat_depth_zero)
    have next_depth: "(of_nat j + 1 :: 64 word) = of_nat (Suc j)" by simp
    define P where "P = (\<lambda>s :: SegmentTree. leaf_range s = leaf_range t \<and> fan_out s = f)"
    have keep: "P s1" if "P s0" "build fuel s0 c d = Some (Inr (v, s1))" for s0 c d v s1
      using that build_frame [OF that(2)] by (auto simp: P_def nodes_replaced_def)
    have start: "P t" by (simp add: P_def shape)
    have call: "build fuel s0 c (of_nat (Suc j)) \<noteq> None"
      if "P s0" "nodes_above f (Suc j) \<le> c" "c < nodes_above f (Suc (Suc j))" for s0 c
      using that shape small below fuel by (intro Suc.IH) (auto simp: P_def)
    have "prepareChildValuesforAggregation (build fuel) t idx (of_nat j) \<noteq> None"
    proof (cases "j = 0")
      case True
      have "for_each_child (\<lambda>t' i. build fuel t' (int i + 1) (of_nat (Suc j))) t [0..<f] \<noteq> None"
      proof (rule for_each_child_returns [where P = P, OF start])
        fix s0 i
        assume "P s0" "i \<in> set [0..<f]"
        then show "build fuel s0 (int i + 1) (of_nat (Suc j)) \<noteq> None"
          using True by (intro call) (auto simp: nodes_above_def)
      qed (rule keep)
      with True show ?thesis
        by (simp add: prepareChildValuesforAggregation_def shape)
    next
      case False
      have "for_each_child (\<lambda>t' i. build fuel t' (idx * int f + 1 + int i) (of_nat (Suc j)))
              t [0..<f] \<noteq> None"
      proof (rule for_each_child_returns [where P = P, OF start])
        fix s0 i
        assume "P s0" "i \<in> set [0..<f]"
        then show "build fuel s0 (idx * int f + 1 + int i) (of_nat (Suc j)) \<noteq> None"
          using child_index_level [OF Suc.prems(5,6), of i] by (intro call) auto
      qed (rule keep)
      with False zero show ?thesis
        by (simp add: prepareChildValuesforAggregation_def shape Let_def next_depth
            del: of_nat_Suc)
    qed
    with False show ?thesis
      by (auto split: option.splits sum.splits)
  qed
qed

lemma buildForDerivedAggregate_returns:
  assumes "leaf_range t = (nodes_above f k, nodes_above f (Suc k))" and "fan_out t = f"
    and "k < 2 ^ 64" and "j \<le> k"
    and "nodes_above f j \<le> idx" and "idx < nodes_above f (Suc j)"
    and "k - j < fuel"
  shows "buildForDerivedAggregate fuel t idx (of_nat j) \<noteq> None"
  using assms
proof (induction fuel arbitrary: t idx j)
  case 0
  then show ?case by simp
next
  case (Suc fuel)
  note shape = Suc.prems(1,2) and small = Suc.prems(3)
  show ?case
  proof (cases "fst (leaf_range t) \<le> idx \<and> idx \<le> snd (leaf_range t)")
    case True
    then show ?thesis by (simp add: Let_def)
  next
    case False
    have "j \<noteq> k"
    proof
      assume "j = k"
      with Suc.prems(5,6) shape(1) False show False by simp
    qed
    with Suc.prems(4) have below: "Suc j \<le> k" by simp
    with Suc.prems(7) have fuel: "k - Suc j < fuel" by linarith
    from below small have "j < 2 ^ 64" by simp
    then have zero: "(of_nat j :: 64 word) = 0 \<longleftrightarrow> j = 0"
      by (rule of_nat_depth_zero)
    have next_depth: "(of_nat j + 1 :: 64 word) = of_nat (Suc j)" by simp
    define P where "P = (\<lambda>s :: SegmentTree. leaf_range s = leaf_range t \<and> fan_out s = f)"
    have keep: "P s1" if "P s0" "buildForDerivedAggregate fuel s0 c d = Some (Inr (v, s1))" for s0 c d v s1
      using that buildForDerivedAggregate_frame [OF that(2)] by (auto simp: P_def pairs_replaced_def)
    have start: "P t" by (simp add: P_def shape)
    have call: "buildForDerivedAggregate fuel s0 c (of_nat (Suc j)) \<noteq> None"
      if "P s0" "nodes_above f (Suc j) \<le> c" "c < nodes_above f (Suc (Suc j))" for s0 c
      using that shape small below fuel by (intro Suc.IH) (auto simp: P_def)
    have "prepareChildValuesforDerivedAggregate (buildForDerivedAggregate fuel) t idx (of_nat j) \<noteq> None"
    proof (cases "j = 0")
      case True
      have "for_each_child (\<lambda>t' i. buildForDerivedAggregate fuel t' (int i + 1) (of_nat (Suc j))) t [0..<f] \<noteq> None"
      proof (rule for_each_child_returns [where P = P, OF start])
        fix s0 i
        assume "P s0" "i \<in> set [0..<f]"
        then show "buildForDerivedAggregate fuel s0 (int i + 1) (of_nat (Suc j)) \<noteq> None"
          using True by (intro call) (auto simp: nodes_above_def)
      qed (rule keep)
      with True show ?thesis
        by (simp add: prepareChildValuesforDerivedAggregate_def shape)
    next
      case False
      have "for_each_child (\<lambda>t' i. buildForDerivedAggregate fuel t' (idx * int f + 1 + int i) (of_nat (Suc j)))
              t [0..<f] \<noteq> None"
      proof (rule for_each_child_returns [where P = P, OF start])
        fix s0 i
        assume "P s0" "i \<in> set [0..<f]"
        then show "buildForDerivedAggregate fuel s0 (idx * int f + 1 + int i) (of_nat (Suc j)) \<noteq> None"
          using child_index_level [OF Suc.prems(5,6), of i] by (intro call) auto
      qed (rule keep)
      with False zero show ?thesis
        by (simp add: prepareChildValuesforDerivedAggregate_def shape Let_def next_depth
            del: of_nat_Suc)
    qed
    with False show ?thesis
      by (auto split: option.splits sum.splits)
  qed
qed


lemma SegmentTree_new_returns:
  assumes "0 < n" and "1 \<le> f" and "f < 2 ^ 31" and "int f * n < 2 ^ 53"
    and "findMaxTreeHeight n (int f) = Some (Inr (depth, leaves))" and "unat depth < fuel"
  shows "SegmentTree_new fuel input_type agg_traits column ti original ordered hint n agg f \<noteq> None"
proof -
  note fan = fan_out_as_int [OF assms(3)]
  from findMaxTreeHeight_returns [OF assms(1,2,4)] assms(5)
  obtain k where k: "unat (of_nat k :: 64 word) = k" "depth = of_nat k"
    "leaves = (nodes_above f k, nodes_above f (Suc k))"
    by auto
  have "unat (of_nat k :: 64 word) < 2 ^ LENGTH(64)"
    by (rule unsigned_less)
  with k(1) have small: "k < 2 ^ 64" by simp
  from assms(6) k(1,2) have fuel: "k - 0 < fuel" by simp
  define m where "m = SegmentTree_members input_type agg_traits column ti original ordered
                        n agg f (depth, leaves)"
  have m: "leaf_range m = (nodes_above f k, nodes_above f (Suc k))" "fan_out m = f"
    "tree_size m = snd leaves"
    by (simp_all add: m_def SegmentTree_members_def k(3))
  have root: "nodes_above f 0 \<le> 0" "0 < nodes_above f (Suc 0)"
    by (simp_all add: nodes_above_def)
  have "build fuel (m\<lparr>aggregated_values := replicate (nat (snd leaves)) None\<rparr>) 0 (of_nat 0) \<noteq> None"
    using m small root fuel by (intro build_returns [where f = f and k = k]) simp_all
  moreover have "buildForDerivedAggregate fuel
      (m\<lparr>derived_aggregated := replicate (nat (snd leaves)) None\<rparr>) 0 (of_nat 0) \<noteq> None"
    using m small root fuel
    by (intro buildForDerivedAggregate_returns [where f = f and k = k]) simp_all
  ultimately show ?thesis
    using assms(1,5)
    by (auto simp: SegmentTree_new_def Let_def m_def [symmetric] m(3) fan
        split: option.splits sum.splits)
qed

text \<open>
  C8. The leaf range is half-open: \<open>leafEnd\<close> is the node count itself, not the node
  count minus one. In the concrete scenario \<open>leafEnd\<close>, \<open>tree_size_\<close> and the number of
  cells of the node buffer are all 15.
\<close>

theorem leaf_end_is_node_count:
  "on_tree (spec_scenario SUM_agg)
     (\<lambda>t. Inr (snd (leaf_range t), tree_size t, length (aggregated_values t),
                snd (leaf_range t) = tree_size t - 1)) =
   Some (Inr (15, 15, 15, False))"
  by code_simp

lemma SegmentTree_new_built:
  assumes "SegmentTree_new fuel input_type agg_traits column ti original ordered hint n agg f =
             Some (Inr t)"
  shows "0 < n \<and>
         (\<exists>shape. findMaxTreeHeight n (sint (word_of_nat f :: 32 word)) = Some (Inr shape) \<and>
            (if agg = AVG_agg then
               (\<exists>v. buildForDerivedAggregate fuel
                      ((SegmentTree_members input_type agg_traits column ti original ordered
                          n agg f shape)
                       \<lparr>derived_aggregated := replicate (nat (snd (snd shape))) None\<rparr>) 0 0 =
                    Some (Inr (v, t)))
             else
               (\<exists>v. build fuel
                      ((SegmentTree_members input_type agg_traits column ti original ordered
                          n agg f shape)
                       \<lparr>aggregated_values := replicate (nat (snd (snd shape))) None\<rparr>) 0 0 =
                    Some (Inr (v, t)))))"
proof -
  from assms have pos: "0 < n"
    by (auto simp: SegmentTree_new_def split: if_splits)
  with assms obtain shape where
    shape: "findMaxTreeHeight n (sint (word_of_nat f :: 32 word)) = Some (Inr shape)"
    by (auto simp: SegmentTree_new_def split: option.splits sum.splits)
  have size: "tree_size (SegmentTree_members input_type agg_traits column ti original ordered
                           n a f shape) = snd (snd shape)" for a
    by (simp add: SegmentTree_members_def)
  show ?thesis
  proof (cases "agg = AVG_agg")
    case True
    with assms pos shape show ?thesis
      by (auto simp: SegmentTree_new_def Let_def size split: option.splits sum.splits)
  next
    case False
    with assms pos shape show ?thesis
      by (auto simp: SegmentTree_new_def Let_def size split: option.splits sum.splits)
  qed
qed

lemma constructed_tree_shape:
  assumes "SegmentTree_new fuel input_type agg_traits column ti original ordered hint n agg f =
             Some (Inr t)"
    and "1 \<le> f" and "f < 2 ^ 31" and "int f * n < 2 ^ 53"
  shows "\<exists>k. 1 \<le> k \<and> unat (leaf_depth t) = k \<and>
             leaf_range t = (nodes_above f k, nodes_above f (Suc k)) \<and>
             tree_size t = nodes_above f (Suc k) \<and>
             leaf_size t = int (f ^ k) \<and>
             int (if agg = AVG_agg then length (derived_aggregated t)
                  else length (aggregated_values t)) = nodes_above f (Suc k)"
proof -
  from SegmentTree_new_built [OF assms(1)] obtain shape where pos: "0 < n"
    and shape: "findMaxTreeHeight n (sint (word_of_nat f :: 32 word)) = Some (Inr shape)"
    and built: "if agg = AVG_agg then
               (\<exists>v. buildForDerivedAggregate fuel
                      ((SegmentTree_members input_type agg_traits column ti original ordered
                          n agg f shape)
                       \<lparr>derived_aggregated := replicate (nat (snd (snd shape))) None\<rparr>) 0 0 =
                    Some (Inr (v, t)))
             else
               (\<exists>v. build fuel
                      ((SegmentTree_members input_type agg_traits column ti original ordered
                          n agg f shape)
                       \<lparr>aggregated_values := replicate (nat (snd (snd shape))) None\<rparr>) 0 0 =
                    Some (Inr (v, t)))"
    by blast
  from findMaxTreeHeight_returns [OF pos assms(2,4)] shape
  obtain k where k: "1 \<le> k" "unat (of_nat k :: 64 word) = k"
    "shape = (of_nat k, (nodes_above f k, nodes_above f (Suc k)))"
    unfolding fan_out_as_int [OF assms(3)] by auto
  have size_nonneg: "0 \<le> nodes_above f (Suc k)"
    by (simp add: nodes_above_def sum_nonneg)
  have "leaf_depth t = of_nat k \<and> leaf_range t = (nodes_above f k, nodes_above f (Suc k)) \<and>
        tree_size t = nodes_above f (Suc k) \<and>
        leaf_size t = nodes_above f (Suc k) - nodes_above f k \<and>
        int (if agg = AVG_agg then length (derived_aggregated t)
             else length (aggregated_values t)) = nodes_above f (Suc k)"
  proof (cases "agg = AVG_agg")
    case True
    with built obtain v where
      "buildForDerivedAggregate fuel
         ((SegmentTree_members input_type agg_traits column ti original ordered n agg f shape)
          \<lparr>derived_aggregated := replicate (nat (snd (snd shape))) None\<rparr>) 0 0 = Some (Inr (v, t))"
      by auto
    from buildForDerivedAggregate_frame [OF this] True size_nonneg show ?thesis
      by (auto simp: pairs_replaced_def SegmentTree_members_def k(3))
  next
    case False
    with built obtain v where
      "build fuel
         ((SegmentTree_members input_type agg_traits column ti original ordered n agg f shape)
          \<lparr>aggregated_values := replicate (nat (snd (snd shape))) None\<rparr>) 0 0 = Some (Inr (v, t))"
      by auto
    from build_frame [OF this] False size_nonneg show ?thesis
      by (auto simp: nodes_replaced_def SegmentTree_members_def k(3))
  qed
  with k(1,2) show ?thesis
    by (intro exI [of _ k]) (simp add: nodes_above_Suc)
qed

text \<open>
  C8, as amended. For a fan-out of at least 2 that fits the \<open>int\<close> parameter of
  \<open>findMaxTreeHeight\<close>, and an element count for which the fan-out times the element count
  is below \<open>2^53\<close>, so that every power the shape computation asks of \<open>pow\<close> is a
  \<open>double\<close> and no sum leaves the 64 bits: the tree that the constructor returns has its
  leaves at a depth of at least 1, its leaf range is the half-open index range of that
  level in the complete tree of the fan-out, \<open>leafEnd\<close> is \<open>tree_size_\<close>, the number of
  nodes of the complete tree of that depth, which is also the number of cells of the node
  buffer, and \<open>leaf_size_\<close> is the width of the leaf level. \<open>query\<close> is a \<open>const\<close>
  member: it is a function of the tree state and returns no new one.
\<close>

theorem constructed_tree_geometry:
  assumes "SegmentTree_new fuel input_type agg_traits column ti original ordered hint n agg f =
             Some (Inr t)"
    and "2 \<le> f" and "f < 2 ^ 31" and "int f * n < 2 ^ 53"
  shows "1 \<le> unat (leaf_depth t) \<and>
         fst (leaf_range t) = (\<Sum>i<unat (leaf_depth t). int f ^ i) \<and>
         snd (leaf_range t) = (\<Sum>i\<le>unat (leaf_depth t). int f ^ i) \<and>
         tree_size t = snd (leaf_range t) \<and>
         leaf_size t = int f ^ unat (leaf_depth t) \<and>
         int (if agg = AVG_agg then length (derived_aggregated t)
              else length (aggregated_values t)) = tree_size t"
proof -
  from assms(2) have "1 \<le> f" by simp
  from constructed_tree_shape [OF assms(1) this assms(3,4)] show ?thesis
    by (auto simp: nodes_above_def lessThan_Suc_atMost [symmetric])
qed

theorem constructed_tree_geometry_witness:
  "SegmentTree_new 4 int64_traits int64_traits [1, NULL_BIGINT, 3, 4, NULL_BIGINT, 6, 7] kBIGINT
     [0, 1, 2, 3, 4, 5, 6] [0, 1, 2, 3, 4, 5, 6] (0, 0) 7 SUM_agg 2 = Some (Inr scenario_sum_tree) \<and>
   (2 :: nat) \<le> 2 \<and> (2 :: nat) < 2 ^ 31 \<and> int 2 * 7 < 2 ^ 53 \<and>
   unat (leaf_depth scenario_sum_tree) = 3 \<and>
   leaf_range scenario_sum_tree = (7, 15) \<and>
   tree_size scenario_sum_tree = 15 \<and>
   leaf_size scenario_sum_tree = 8 \<and>
   length (aggregated_values scenario_sum_tree) = 15"
proof -
  have built: "SegmentTree_new 4 int64_traits int64_traits
      [1, NULL_BIGINT, 3, 4, NULL_BIGINT, 6, 7] kBIGINT
      [0, 1, 2, 3, 4, 5, 6] [0, 1, 2, 3, 4, 5, 6] (0, 0) 7 SUM_agg 2 = Some (Inr scenario_sum_tree)"
    using spec_scenario_SUM by (simp only: spec_scenario_def)
  have fan: "(2 :: nat) \<le> 2" "(2 :: nat) < 2 ^ 31" and count: "int 2 * 7 < 2 ^ 53"
    by simp_all
  from constructed_tree_geometry [OF built fan count] built show ?thesis
    by (simp add: scenario_sum_tree_def)
qed

subsection \<open>All-null partitions\<close>

text \<open>
  C4. COUNT over an all-null range is claimed to be 0. On the COUNT tree of two null rows
  the query of the range \<open>[0, 1]\<close> returns the null sentinel of the accumulator: a null
  leaf stores the null sentinel for every aggregate kind, the combination rule of SUM and
  COUNT turns inputs that are all null into the null sentinel, and \<open>query\<close> returns it.
\<close>

theorem count_over_nulls_is_null:
  "on_tree (all_null_pair COUNT_agg) (\<lambda>t. query t (0, 1)) = Some (Inr NULL_BIGINT) \<and>
   NULL_BIGINT \<noteq> 0"
  by code_simp

text \<open>
  What follows holds for a partition all of whose values are null: every value that
  \<open>build\<close> stores or returns is the null or the invalid sentinel, the root holds the
  null sentinel, and so does whatever \<open>search\<close> returns for a range that overlaps the
  covered range of the root.
\<close>

lemma fold_unchanged: "(\<And>x. x \<in> set xs \<Longrightarrow> f x a = a) \<Longrightarrow> fold f xs a = a"
  by (induction xs) simp_all

lemma aggregateValue_excluded:
  assumes "\<forall>v\<in>set vals. excluded t v"
  shows "aggregateValue t vals = null_val t"
proof -
  have "fold (\<lambda>val (acc, all_nulls).
                if val \<noteq> null_val t \<and> val \<noteq> invalid_val t
                then (g acc val, False) else (acc, all_nulls)) vals (a, True) = (a, True)"
    for g :: "int \<Rightarrow> int \<Rightarrow> int" and a
    using assms by (intro fold_unchanged) (auto simp: excluded_def)
  then show ?thesis
    by (simp add: aggregateValue_def)
qed

lemma read_node_excluded:
  assumes "cells_excluded t buf" and "read_node buf i = Inr v"
  shows "excluded t v"
proof -
  from assms(2) have inside: "nat i < length buf" and cell: "buf ! nat i = Some v"
    by (auto simp: read_node_def split: if_splits option.splits)
  from inside have "buf ! nat i \<in> set buf" by (rule nth_mem)
  with assms(1) cell show ?thesis
    by (auto simp: cells_excluded_def)
qed

lemma scan_nodes_excluded:
  assumes "cells_excluded t buf"
    and "\<And>val. excluded t val \<Longrightarrow> body val a = a"
  shows "scan_nodes buf body i j a = Inr a \<or> (\<exists>e. scan_nodes buf body i j a = Inl e)"
proof -
  define step where "step = (\<lambda>i acc. case acc of
                      Inl e \<Rightarrow> Inl e
                    | Inr a \<Rightarrow> (case read_node buf i of
                                  Inl e \<Rightarrow> Inl e
                                | Inr val \<Rightarrow> Inr (body val a)))"
  have err: "fold step idxs (Inl e) = Inl e" for idxs e
    by (induction idxs) (simp_all add: step_def)
  have "fold step idxs (Inr a) = Inr a \<or> (\<exists>e. fold step idxs (Inr a) = Inl e)" for idxs
  proof (induction idxs)
    case Nil
    then show ?case by simp
  next
    case (Cons k idxs)
    show ?case
    proof (cases "read_node buf k")
      case (Inl e)
      then have "step k (Inr a) = Inl e" by (simp add: step_def)
      then have "fold step (k # idxs) (Inr a) = Inl e" by (simp add: err)
      then show ?thesis by blast
    next
      case (Inr val)
      with assms have "body val a = a"
        using read_node_excluded by blast
      with Inr have "step k (Inr a) = Inr a" by (simp add: step_def)
      then have "fold step (k # idxs) (Inr a) = fold step idxs (Inr a)" by simp
      with Cons show ?thesis by simp
    qed
  qed
  then show ?thesis
    by (simp add: scan_nodes_def step_def)
qed

lemma aggregateValueViaColumnAccess_excluded:
  assumes "cells_excluded t (aggregated_values t)"
  shows "aggregateValueViaColumnAccess t i n = Inr (null_val t) \<or>
         (\<exists>e. aggregateValueViaColumnAccess t i n = Inl e)"
proof -
  have "scan_nodes (aggregated_values t)
          (\<lambda>val (acc, all_nulls).
             if val \<noteq> null_val t \<and> val \<noteq> invalid_val t
             then (g acc val, False) else (acc, all_nulls)) i j (a, True) = Inr (a, True) \<or>
        (\<exists>e. scan_nodes (aggregated_values t)
          (\<lambda>val (acc, all_nulls).
             if val \<noteq> null_val t \<and> val \<noteq> invalid_val t
             then (g acc val, False) else (acc, all_nulls)) i j (a, True) = Inl e)"
    for g :: "int \<Rightarrow> int \<Rightarrow> int" and a j
    by (rule scan_nodes_excluded [OF assms]) (auto simp: excluded_def)
  note scan = this
  show ?thesis
  proof (cases "agg_type t = MIN_agg")
    case True
    with scan [of min "i + n" "numeric_max (AGG_TYPE t)"] show ?thesis
      by (auto simp: aggregateValueViaColumnAccess_def Let_def)
  next
    case not_min: False
    show ?thesis
    proof (cases "agg_type t = MAX_agg")
      case True
      with scan [of max "i + n" "numeric_min (AGG_TYPE t)"] show ?thesis
        by (auto simp: aggregateValueViaColumnAccess_def Let_def)
    next
      case False
      with not_min scan [of "(+)" "i + n" 0] show ?thesis
        by (auto simp: aggregateValueViaColumnAccess_def Let_def)
    qed
  qed
qed

lemma collect_results_Inr: "collect_results rs = Inr vs \<Longrightarrow> rs = map Inr vs"
  by (induction rs arbitrary: vs) (auto simp: bind_result_def split: sum.splits)

lemma search_excluded:
  "cells_excluded t (aggregated_values t) \<Longrightarrow> search t r i d s e = Inr v \<Longrightarrow> excluded t v"
proof (induction t r i d s e arbitrary: v rule: search.induct)
  case (1 t r i d s e)
  note [simp del] = search.simps
  note cells = "1.prems"(1)
  note result = "1.prems"(2) [unfolded search.simps [of t r i d s e]]
  show ?case
  proof (cases "num_elems t \<le> 0 \<or> e < fst r \<or> snd r < s")
    case True
    with result show ?thesis
      by (auto simp: excluded_def split: if_splits)
  next
    case outside: False
    show ?thesis
    proof (cases "fst r \<le> s \<and> e \<le> snd r")
      case True
      with outside result have "read_node (aggregated_values t) i = Inr v"
        by (simp split: if_splits)
      with cells show ?thesis by (rule read_node_excluded)
    next
      case partial: False
      show ?thesis
      proof (cases "d = leaf_depth t")
        case True
        with outside partial result
        have "aggregateValueViaColumnAccess t i (snd r - s + 1) = Inr v"
          by (simp add: Let_def split: if_splits)
        with aggregateValueViaColumnAccess_excluded [OF cells, of i "snd r - s + 1"]
        show ?thesis by (auto simp: excluded_def)
      next
        case inner: False
        define pivot where "pivot = s + (e - s) div int (fan_out t)"
        define kids where "kids = computeChildIndexes t i d"
        define calls where "calls = zip kids (childSearchRanges (length kids) pivot e s pivot)"
        from outside partial inner result have fan: "fan_out t \<noteq> 0"
          by (simp split: if_splits)
        with outside partial inner result obtain vals where
          collected: "collect_results
             (map (\<lambda>(ci, cs, ce). search t r ci (d + 1) cs ce) calls) = Inr vals"
          and v: "v = aggregateValue t vals"
          by (simp add: Let_def bind_result_def pivot_def kids_def calls_def
              split: sum.splits if_splits)
        from collect_results_Inr [OF collected]
        have results: "map (\<lambda>(ci, cs, ce). search t r ci (d + 1) cs ce) calls = map Inr vals" .
        have "excluded t w" if "w \<in> set vals" for w
        proof -
          from that have "Inr w \<in> set (map (\<lambda>(ci, cs, ce). search t r ci (d + 1) cs ce) calls)"
            unfolding results by simp
          then obtain ci cs ce where call: "(ci, cs, ce) \<in> set calls"
            and child: "search t r ci (d + 1) cs ce = Inr w"
            by auto
          from outside partial have c1: "\<not> num_elems t \<le> 0" and c2: "\<not> (e < fst r \<or> snd r < s)"
            by auto
          show ?thesis
            by (rule "1.IH" [OF c1 c2 partial inner fan pivot_def kids_def
                  call [unfolded calls_def] refl refl cells child])
        qed
        with v show ?thesis
          by (simp add: aggregateValue_excluded excluded_def)
      qed
    qed
  qed
qed


lemma nodes_replaced_excluded: "nodes_replaced t s \<Longrightarrow> excluded s = excluded t"
  by (auto simp: nodes_replaced_def excluded_def fun_eq_iff)

lemma nodes_replaced_same:
  assumes "nodes_replaced t s"
  shows "excluded s = excluded t" and "cells_excluded s = cells_excluded t"
    and "all_rows_null s = all_rows_null t" and "null_val s = null_val t"
    and "leaf_range s = leaf_range t"
proof -
  show "excluded s = excluded t"
    using assms by (rule nodes_replaced_excluded)
  then show "cells_excluded s = cells_excluded t"
    by (simp add: cells_excluded_def fun_eq_iff cong: option.case_cong)
  from assms obtain buf where s: "s = t\<lparr>aggregated_values := buf\<rparr>"
    by (auto simp: nodes_replaced_def)
  have "spec_resolve s = spec_resolve t"
    unfolding s
    by (simp add: fun_eq_iff spec_resolve_def refine_input_col_idx_def split: sum.splits)
  then show "all_rows_null s = all_rows_null t"
    unfolding all_rows_null_def s by simp
  show "null_val s = null_val t" "leaf_range s = leaf_range t"
    unfolding s by simp_all
qed

lemma store_aggregated_result:
  assumes "store_aggregated t i v = Inr (r, t')"
  shows "r = v" and "aggregated_values t' = (aggregated_values t)[nat i := Some v]"
    and "read_node (aggregated_values t') i = Inr v"
  using assms
  by (auto simp: store_aggregated_def bind_result_def write_node_def read_node_def
      split: sum.splits if_splits option.splits)

lemma cells_excluded_update:
  assumes "cells_excluded t buf" and "excluded t v"
  shows "cells_excluded t (buf[k := Some v])"
proof -
  have "set (buf[k := Some v]) \<subseteq> insert (Some v) (set buf)"
    by (rule set_update_subset_insert)
  with assms show ?thesis
    by (auto simp: cells_excluded_def)
qed

lemma store_aggregated_excluded:
  assumes "store_aggregated t i v = Inr (r, t')"
    and "cells_excluded t (aggregated_values t)" and "excluded t v"
  shows "r = v \<and> cells_excluded t (aggregated_values t') \<and>
         read_node (aggregated_values t') i = Inr v"
proof -
  note r = store_aggregated_result(1) [OF assms(1)]
    and buf = store_aggregated_result(2) [OF assms(1)]
    and reread = store_aggregated_result(3) [OF assms(1)]
  have "cells_excluded t (aggregated_values t')"
    unfolding buf using assms(2,3) by (rule cells_excluded_update)
  with r reread show ?thesis by blast
qed

lemma all_rows_null_resolved:
  assumes "all_rows_null t" and "0 \<le> slot" and "slot < num_elems t"
    and "refine_input_col_idx t slot = Inr refined"
    and "read_input ColumnBufferOutOfBounds (input_col_buf t) refined = Inr col_val"
  shows "col_val = input_type_null_val t"
proof -
  from assms(4,5) have "spec_resolve t slot = Inr col_val"
    by (simp add: spec_resolve_def bind_result_def)
  with assms(1-3) show ?thesis
    by (auto simp: all_rows_null_def)
qed

lemma build_all_null:
  assumes "all_rows_null t" and "cells_excluded t (aggregated_values t)"
    and "build fuel t i d = Some (Inr (v, t'))"
  shows "excluded t v \<and> cells_excluded t (aggregated_values t') \<and>
         read_node (aggregated_values t') i = Inr v \<and>
         (\<not> (fst (leaf_range t) \<le> i \<and> i \<le> snd (leaf_range t)) \<longrightarrow> v = null_val t)"
  using assms
proof (induction fuel arbitrary: t i d v t')
  case 0
  then show ?case by simp
next
  case (Suc fuel)
  note nulls = Suc.prems(1) and cells = Suc.prems(2) and built = Suc.prems(3)
  show ?case
  proof (cases "fst (leaf_range t) \<le> i \<and> i \<le> snd (leaf_range t)")
    case leaf: True
    show ?thesis
    proof (cases "num_elems t \<le> i - fst (leaf_range t)")
      case True
      with leaf built obtain buf where
        "write_node (aggregated_values t) i (invalid_val t) = Inr buf"
        "v = invalid_val t" "t' = t\<lparr>aggregated_values := buf\<rparr>"
        by (auto simp: Let_def bind_result_def split: sum.splits)
      then have v: "v = invalid_val t"
        and buf: "aggregated_values t' = (aggregated_values t)[nat i := Some v]"
        and reread: "read_node (aggregated_values t') i = Inr v"
        by (auto simp: write_node_def read_node_def split: if_splits)
      from v have ex: "excluded t v" by (simp add: excluded_def)
      have "cells_excluded t (aggregated_values t')"
        unfolding buf using cells ex by (rule cells_excluded_update)
      with ex reread leaf show ?thesis by simp
    next
      case False
      with leaf built obtain refined col_val where
        resolved: "refine_input_col_idx t (i - fst (leaf_range t)) = Inr refined"
        "read_input ColumnBufferOutOfBounds (input_col_buf t) refined = Inr col_val"
        and store: "(if col_val \<noteq> input_type_null_val t then
                   (if agg_type t = COUNT_agg then store_aggregated t i 1
                    else store_aggregated t i col_val)
                 else store_aggregated t i (null_val t)) = Inr (v, t')"
        by (auto simp: Let_def bind_result_def split: sum.splits)
      from leaf False have "0 \<le> i - fst (leaf_range t)" "i - fst (leaf_range t) < num_elems t"
        by simp_all
      with nulls have "col_val = input_type_null_val t"
        using resolved by (rule all_rows_null_resolved)
      with store have "store_aggregated t i (null_val t) = Inr (v, t')"
        by simp
      from store_aggregated_excluded [OF this cells] leaf show ?thesis
        by (simp add: excluded_def)
    qed
  next
    case inner: False
    with built obtain child_vals s where
      kids: "prepareChildValuesforAggregation (build fuel) t i d = Some (Inr (child_vals, s))"
      and store: "store_aggregated s i (aggregateValue s child_vals) = Inr (v, t')"
      by (auto split: option.splits sum.splits prod.splits)
    have step: "(nodes_replaced t s1 \<and> cells_excluded t (aggregated_values s1)) \<and> excluded t w"
      if before: "nodes_replaced t s0 \<and> cells_excluded t (aggregated_values s0)"
        and call: "build fuel s0 j e = Some (Inr (w, s1))" for s0 j e w s1
    proof -
      from before have same: "nodes_replaced t s0" by simp
      from nulls have "all_rows_null s0"
        by (simp add: nodes_replaced_same(3) [OF same])
      moreover from before have "cells_excluded s0 (aggregated_values s0)"
        by (simp add: nodes_replaced_same(2) [OF same])
      ultimately have "excluded s0 w \<and> cells_excluded s0 (aggregated_values s1)"
        using Suc.IH [OF _ _ call] by simp
      moreover have "nodes_replaced t s1"
        using same build_frame [OF call] by (rule nodes_replaced_trans)
      ultimately show ?thesis
        by (simp add: nodes_replaced_same(1,2) [OF same])
    qed
    have after: "(nodes_replaced t s \<and> cells_excluded t (aggregated_values s)) \<and>
                 (\<forall>w\<in>set child_vals. excluded t w)"
    proof (rule prepareChildValuesforAggregation_invariant
            [where P = "\<lambda>u. nodes_replaced t u \<and> cells_excluded t (aggregated_values u)"
               and Q = "excluded t", OF kids])
      show "nodes_replaced t t \<and> cells_excluded t (aggregated_values t)"
        using cells nodes_replaced_refl by simp
    qed (rule step)
    then have same: "nodes_replaced t s" by simp
    from after have "aggregateValue s child_vals = null_val s"
      by (intro aggregateValue_excluded) (simp add: nodes_replaced_same(1) [OF same])
    with store have "store_aggregated s i (null_val t) = Inr (v, t')"
      by (simp add: nodes_replaced_same(4) [OF same])
    moreover from after have "cells_excluded s (aggregated_values s)"
      by (simp add: nodes_replaced_same(2) [OF same])
    moreover have "excluded s (null_val t)"
      by (simp add: excluded_def nodes_replaced_same(4) [OF same])
    ultimately have "v = null_val t \<and> cells_excluded s (aggregated_values t') \<and>
        read_node (aggregated_values t') i = Inr (null_val t)"
      using store_aggregated_excluded by blast
    then show ?thesis
      by (simp add: excluded_def nodes_replaced_same(2) [OF same])
  qed
qed


lemma aggregateValueForDerivedAggregate_excluded:
  assumes "\<forall>p\<in>set vals. excluded t (sum_field p)"
  shows "aggregateValueForDerivedAggregate t vals = \<lparr>sum_field = null_val t, count_field = 0\<rparr>"
proof -
  have "fold (\<lambda>pair (res, all_nulls).
                if sum_field pair \<noteq> null_val t \<and> sum_field pair \<noteq> invalid_val t
                then (\<lparr>sum_field = sum_field res + sum_field pair,
                       count_field = count_field res + count_field pair\<rparr>, False)
                else (res, all_nulls)) vals (a, True) = (a, True)" for a
    using assms by (intro fold_unchanged) (auto simp: excluded_def)
  then show ?thesis
    by (simp add: aggregateValueForDerivedAggregate_def)
qed

lemma read_node_pair_excluded:
  assumes "pair_cells_excluded t buf" and "read_node buf i = Inr p"
  shows "excluded t (sum_field p)"
proof -
  from assms(2) have inside: "nat i < length buf" and cell: "buf ! nat i = Some p"
    by (auto simp: read_node_def split: if_splits option.splits)
  from inside have "buf ! nat i \<in> set buf" by (rule nth_mem)
  with assms(1) cell show ?thesis
    by (auto simp: pair_cells_excluded_def)
qed

lemma aggregateValueForDerivedAggregateViaColumnAccess_excluded:
  assumes "cells_excluded t (aggregated_values t)"
  shows "aggregateValueForDerivedAggregateViaColumnAccess t i n =
           Inr \<lparr>sum_field = null_val t, count_field = 0\<rparr> \<or>
         (\<exists>e. aggregateValueForDerivedAggregateViaColumnAccess t i n = Inl e)"
proof -
  have "scan_nodes (aggregated_values t)
          (\<lambda>val (res, all_nulls).
             let cur_pair_val = \<lparr>sum_field = val, count_field = 0\<rparr> in
             if sum_field cur_pair_val \<noteq> null_val t \<and> sum_field cur_pair_val \<noteq> invalid_val t
             then (\<lparr>sum_field = sum_field res + sum_field cur_pair_val,
                    count_field = count_field res + count_field cur_pair_val\<rparr>, False)
             else (res, all_nulls))
          i (i + n) (\<lparr>sum_field = 0, count_field = 0\<rparr>, True) =
        Inr (\<lparr>sum_field = 0, count_field = 0\<rparr>, True) \<or>
        (\<exists>e. scan_nodes (aggregated_values t)
          (\<lambda>val (res, all_nulls).
             let cur_pair_val = \<lparr>sum_field = val, count_field = 0\<rparr> in
             if sum_field cur_pair_val \<noteq> null_val t \<and> sum_field cur_pair_val \<noteq> invalid_val t
             then (\<lparr>sum_field = sum_field res + sum_field cur_pair_val,
                    count_field = count_field res + count_field cur_pair_val\<rparr>, False)
             else (res, all_nulls))
          i (i + n) (\<lparr>sum_field = 0, count_field = 0\<rparr>, True) = Inl e)"
    by (rule scan_nodes_excluded [OF assms]) (auto simp: excluded_def)
  then show ?thesis
    unfolding aggregateValueForDerivedAggregateViaColumnAccess_def Let_def
    by auto
qed

lemma searchForDerivedAggregate_excluded:
  "pair_cells_excluded t (derived_aggregated t) \<Longrightarrow> cells_excluded t (aggregated_values t) \<Longrightarrow>
   searchForDerivedAggregate t r i d s e = Inr p \<Longrightarrow> excluded t (sum_field p)"
proof (induction t r i d s e arbitrary: p rule: searchForDerivedAggregate.induct)
  case (1 t r i d s e)
  note [simp del] = searchForDerivedAggregate.simps
  note pairs = "1.prems"(1) and cells = "1.prems"(2)
  note result = "1.prems"(3) [unfolded searchForDerivedAggregate.simps [of t r i d s e]]
  show ?case
  proof (cases "e < fst r \<or> snd r < s")
    case True
    with result show ?thesis
      by (auto simp: excluded_def split: if_splits)
  next
    case outside: False
    show ?thesis
    proof (cases "fst r \<le> s \<and> e \<le> snd r")
      case True
      with outside result have "read_node (derived_aggregated t) i = Inr p"
        by (simp split: if_splits)
      with pairs show ?thesis by (rule read_node_pair_excluded)
    next
      case partial: False
      show ?thesis
      proof (cases "d = leaf_depth t")
        case True
        with outside partial result
        have "aggregateValueForDerivedAggregateViaColumnAccess t i (snd r - s + 1) = Inr p"
          by (simp add: Let_def split: if_splits)
        with aggregateValueForDerivedAggregateViaColumnAccess_excluded
               [OF cells, of i "snd r - s + 1"]
        show ?thesis by (auto simp: excluded_def)
      next
        case inner: False
        define pivot where "pivot = s + (e - s) div int (fan_out t)"
        define kids where "kids = computeChildIndexes t i d"
        define calls where "calls = zip kids (childSearchRanges (length kids) pivot e s pivot)"
        from outside partial inner result have fan: "fan_out t \<noteq> 0"
          by (simp split: if_splits)
        with outside partial inner result obtain vals where
          collected: "collect_results
             (map (\<lambda>(ci, cs, ce). searchForDerivedAggregate t r ci (d + 1) cs ce) calls) =
             Inr vals"
          and p: "p = aggregateValueForDerivedAggregate t vals"
          by (simp add: Let_def bind_result_def pivot_def kids_def calls_def
              split: sum.splits if_splits)
        from collect_results_Inr [OF collected]
        have results: "map (\<lambda>(ci, cs, ce). searchForDerivedAggregate t r ci (d + 1) cs ce) calls =
                       map Inr vals" .
        have "excluded t (sum_field w)" if "w \<in> set vals" for w
        proof -
          from that have "Inr w \<in> set (map (\<lambda>(ci, cs, ce).
                             searchForDerivedAggregate t r ci (d + 1) cs ce) calls)"
            unfolding results by simp
          then obtain ci cs ce where call: "(ci, cs, ce) \<in> set calls"
            and child: "searchForDerivedAggregate t r ci (d + 1) cs ce = Inr w"
            by auto
          show ?thesis
            by (rule "1.IH" [OF outside partial inner fan kids_def pivot_def
                  call [unfolded calls_def] refl refl pairs cells child])
        qed
        with p show ?thesis
          by (simp add: aggregateValueForDerivedAggregate_excluded excluded_def)
      qed
    qed
  qed
qed


lemma pairs_replaced_same:
  assumes "pairs_replaced t s"
  shows "excluded s = excluded t" and "pair_cells_excluded s = pair_cells_excluded t"
    and "all_rows_null s = all_rows_null t" and "null_val s = null_val t"
proof -
  show "excluded s = excluded t"
    using assms by (auto simp: pairs_replaced_def excluded_def fun_eq_iff)
  then show "pair_cells_excluded s = pair_cells_excluded t"
    by (simp add: pair_cells_excluded_def fun_eq_iff cong: option.case_cong)
  from assms obtain buf where s: "s = t\<lparr>derived_aggregated := buf\<rparr>"
    by (auto simp: pairs_replaced_def)
  have "spec_resolve s = spec_resolve t"
    unfolding s
    by (simp add: fun_eq_iff spec_resolve_def refine_input_col_idx_def split: sum.splits)
  then show "all_rows_null s = all_rows_null t"
    unfolding all_rows_null_def s by simp
  show "null_val s = null_val t"
    unfolding s by simp
qed

lemma store_derived_result:
  assumes "store_derived t i v = Inr (r, t')"
  shows "r = v" and "derived_aggregated t' = (derived_aggregated t)[nat i := Some v]"
    and "read_node (derived_aggregated t') i = Inr v"
  using assms
  by (auto simp: store_derived_def bind_result_def write_node_def read_node_def
      split: sum.splits if_splits option.splits)

lemma store_derived_excluded:
  assumes "store_derived t i v = Inr (r, t')"
    and "pair_cells_excluded t (derived_aggregated t)" and "excluded t (sum_field v)"
  shows "r = v \<and> pair_cells_excluded t (derived_aggregated t') \<and>
         read_node (derived_aggregated t') i = Inr v"
proof -
  note r = store_derived_result(1) [OF assms(1)]
    and buf = store_derived_result(2) [OF assms(1)]
    and reread = store_derived_result(3) [OF assms(1)]
  have "set ((derived_aggregated t)[nat i := Some v]) \<subseteq>
        insert (Some v) (set (derived_aggregated t))"
    by (rule set_update_subset_insert)
  with assms(2,3) have "pair_cells_excluded t (derived_aggregated t')"
    unfolding buf by (auto simp: pair_cells_excluded_def)
  with r reread show ?thesis by blast
qed

lemma buildForDerivedAggregate_all_null:
  assumes "all_rows_null t" and "pair_cells_excluded t (derived_aggregated t)"
    and "buildForDerivedAggregate fuel t i d = Some (Inr (v, t'))"
  shows "excluded t (sum_field v) \<and> pair_cells_excluded t (derived_aggregated t') \<and>
         read_node (derived_aggregated t') i = Inr v \<and>
         (\<not> (fst (leaf_range t) \<le> i \<and> i \<le> snd (leaf_range t)) \<longrightarrow> sum_field v = null_val t)"
  using assms
proof (induction fuel arbitrary: t i d v t')
  case 0
  then show ?case by simp
next
  case (Suc fuel)
  note nulls = Suc.prems(1) and cells = Suc.prems(2) and built = Suc.prems(3)
  show ?case
  proof (cases "fst (leaf_range t) \<le> i \<and> i \<le> snd (leaf_range t)")
    case leaf: True
    show ?thesis
    proof (cases "num_elems t \<le> i - fst (leaf_range t)")
      case True
      with leaf built
      have "store_derived t i \<lparr>sum_field = invalid_val t, count_field = 0\<rparr> = Inr (v, t')"
        by (auto simp: Let_def bind_result_def split: sum.splits)
      from store_derived_excluded [OF this cells] leaf show ?thesis
        by (simp add: excluded_def)
    next
      case False
      with leaf built obtain refined col_val where
        resolved: "refine_input_col_idx t (i - fst (leaf_range t)) = Inr refined"
        "read_input ColumnBufferOutOfBounds (input_col_buf t) refined = Inr col_val"
        and store: "(if col_val \<noteq> input_type_null_val t then
                       store_derived t i \<lparr>sum_field = col_val, count_field = 1\<rparr>
                     else store_derived t i \<lparr>sum_field = null_val t, count_field = 0\<rparr>) =
                    Inr (v, t')"
        by (auto simp: Let_def bind_result_def split: sum.splits)
      from leaf False have "0 \<le> i - fst (leaf_range t)" "i - fst (leaf_range t) < num_elems t"
        by simp_all
      with nulls have "col_val = input_type_null_val t"
        using resolved by (rule all_rows_null_resolved)
      with store
      have "store_derived t i \<lparr>sum_field = null_val t, count_field = 0\<rparr> = Inr (v, t')"
        by simp
      from store_derived_excluded [OF this cells] leaf show ?thesis
        by (simp add: excluded_def)
    qed
  next
    case inner: False
    with built obtain child_vals s where
      kids: "prepareChildValuesforDerivedAggregate (buildForDerivedAggregate fuel) t i d =
               Some (Inr (child_vals, s))"
      and store: "store_derived s i (aggregateValueForDerivedAggregate s child_vals) = Inr (v, t')"
      by (auto split: option.splits sum.splits prod.splits)
    have step: "(pairs_replaced t s1 \<and> pair_cells_excluded t (derived_aggregated s1)) \<and>
                excluded t (sum_field w)"
      if before: "pairs_replaced t s0 \<and> pair_cells_excluded t (derived_aggregated s0)"
        and call: "buildForDerivedAggregate fuel s0 j e = Some (Inr (w, s1))" for s0 j e w s1
    proof -
      from before have same: "pairs_replaced t s0" by simp
      from nulls have "all_rows_null s0"
        by (simp add: pairs_replaced_same(3) [OF same])
      moreover from before have "pair_cells_excluded s0 (derived_aggregated s0)"
        by (simp add: pairs_replaced_same(2) [OF same])
      ultimately have "excluded s0 (sum_field w) \<and> pair_cells_excluded s0 (derived_aggregated s1)"
        using Suc.IH [OF _ _ call] by simp
      moreover have "pairs_replaced t s1"
        using same buildForDerivedAggregate_frame [OF call] by (rule pairs_replaced_trans)
      ultimately show ?thesis
        by (simp add: pairs_replaced_same(1,2) [OF same])
    qed
    have after: "(pairs_replaced t s \<and> pair_cells_excluded t (derived_aggregated s)) \<and>
                 (\<forall>w\<in>set child_vals. excluded t (sum_field w))"
    proof (rule prepareChildValuesforDerivedAggregate_invariant
            [where P = "\<lambda>u. pairs_replaced t u \<and> pair_cells_excluded t (derived_aggregated u)"
               and Q = "\<lambda>w. excluded t (sum_field w)", OF kids])
      show "pairs_replaced t t \<and> pair_cells_excluded t (derived_aggregated t)"
        using cells pairs_replaced_refl by simp
    qed (rule step)
    then have same: "pairs_replaced t s" by simp
    from after have "aggregateValueForDerivedAggregate s child_vals =
                     \<lparr>sum_field = null_val s, count_field = 0\<rparr>"
      by (intro aggregateValueForDerivedAggregate_excluded)
         (simp add: pairs_replaced_same(1) [OF same])
    with store
    have "store_derived s i \<lparr>sum_field = null_val t, count_field = 0\<rparr> = Inr (v, t')"
      by (simp add: pairs_replaced_same(4) [OF same])
    moreover from after have "pair_cells_excluded s (derived_aggregated s)"
      by (simp add: pairs_replaced_same(2) [OF same])
    moreover have "excluded s (sum_field \<lparr>sum_field = null_val t, count_field = 0\<rparr>)"
      by (simp add: excluded_def pairs_replaced_same(4) [OF same])
    ultimately have "v = \<lparr>sum_field = null_val t, count_field = 0\<rparr> \<and>
        pair_cells_excluded s (derived_aggregated t') \<and>
        read_node (derived_aggregated t') i = Inr \<lparr>sum_field = null_val t, count_field = 0\<rparr>"
      using store_derived_excluded by blast
    then show ?thesis
      by (simp add: excluded_def pairs_replaced_same(2) [OF same])
  qed
qed


lemma search_overlap_null:
  assumes cells: "cells_excluded t (aggregated_values t)"
    and result: "search t r i d s e = Inr v"
    and overlap: "\<not> (e < fst r \<or> snd r < s)"
    and whole: "fst r \<le> s \<and> e \<le> snd r \<Longrightarrow> read_node (aggregated_values t) i = Inr (null_val t)"
  shows "v = null_val t"
proof -
  note [simp del] = search.simps
  note unfolded = result [unfolded search.simps [of t r i d s e]]
  show ?thesis
  proof (cases "num_elems t \<le> 0")
    case True
    with unfolded show ?thesis by simp
  next
    case pos: False
    show ?thesis
    proof (cases "fst r \<le> s \<and> e \<le> snd r")
      case True
      with pos overlap unfolded have "read_node (aggregated_values t) i = Inr v"
        by (simp split: if_splits)
      with whole [OF True] show ?thesis by simp
    next
      case partial: False
      show ?thesis
      proof (cases "d = leaf_depth t")
        case True
        with pos overlap partial unfolded
        have "aggregateValueViaColumnAccess t i (snd r - s + 1) = Inr v"
          by (simp add: Let_def split: if_splits)
        with aggregateValueViaColumnAccess_excluded [OF cells, of i "snd r - s + 1"]
        show ?thesis by auto
      next
        case inner: False
        define pivot where "pivot = s + (e - s) div int (fan_out t)"
        define kids where "kids = computeChildIndexes t i d"
        define calls where "calls = zip kids (childSearchRanges (length kids) pivot e s pivot)"
        from pos overlap partial inner unfolded obtain vals where
          collected: "collect_results
             (map (\<lambda>(ci, cs, ce). search t r ci (d + 1) cs ce) calls) = Inr vals"
          and v: "v = aggregateValue t vals"
          by (simp add: Let_def bind_result_def pivot_def kids_def calls_def
              split: sum.splits if_splits)
        from collect_results_Inr [OF collected]
        have results: "map (\<lambda>(ci, cs, ce). search t r ci (d + 1) cs ce) calls = map Inr vals" .
        have "excluded t w" if "w \<in> set vals" for w
        proof -
          from that have "Inr w \<in> set (map (\<lambda>(ci, cs, ce). search t r ci (d + 1) cs ce) calls)"
            unfolding results by simp
          then obtain ci cs ce where "search t r ci (d + 1) cs ce = Inr w"
            by auto
          with cells show ?thesis by (rule search_excluded)
        qed
        with v show ?thesis
          by (simp add: aggregateValue_excluded)
      qed
    qed
  qed
qed

lemma searchForDerivedAggregate_overlap_null:
  assumes pairs: "pair_cells_excluded t (derived_aggregated t)"
    and cells: "cells_excluded t (aggregated_values t)"
    and result: "searchForDerivedAggregate t r i d s e = Inr p"
    and overlap: "\<not> (e < fst r \<or> snd r < s)"
    and whole: "\<And>q. fst r \<le> s \<and> e \<le> snd r \<Longrightarrow> read_node (derived_aggregated t) i = Inr q \<Longrightarrow>
                  sum_field q = null_val t"
  shows "sum_field p = null_val t"
proof -
  note [simp del] = searchForDerivedAggregate.simps
  note unfolded = result [unfolded searchForDerivedAggregate.simps [of t r i d s e]]
  show ?thesis
  proof (cases "fst r \<le> s \<and> e \<le> snd r")
    case True
    with overlap unfolded have "read_node (derived_aggregated t) i = Inr p"
      by (simp split: if_splits)
    with whole [OF True] show ?thesis by simp
  next
    case partial: False
    show ?thesis
    proof (cases "d = leaf_depth t")
      case True
      with overlap partial unfolded
      have "aggregateValueForDerivedAggregateViaColumnAccess t i (snd r - s + 1) = Inr p"
        by (simp add: Let_def split: if_splits)
      with aggregateValueForDerivedAggregateViaColumnAccess_excluded
             [OF cells, of i "snd r - s + 1"]
      show ?thesis by auto
    next
      case inner: False
      define pivot where "pivot = s + (e - s) div int (fan_out t)"
      define kids where "kids = computeChildIndexes t i d"
      define calls where "calls = zip kids (childSearchRanges (length kids) pivot e s pivot)"
      from overlap partial inner unfolded obtain vals where
        collected: "collect_results
           (map (\<lambda>(ci, cs, ce). searchForDerivedAggregate t r ci (d + 1) cs ce) calls) = Inr vals"
        and p: "p = aggregateValueForDerivedAggregate t vals"
        by (simp add: Let_def bind_result_def pivot_def kids_def calls_def
            split: sum.splits if_splits)
      from collect_results_Inr [OF collected]
      have results: "map (\<lambda>(ci, cs, ce). searchForDerivedAggregate t r ci (d + 1) cs ce) calls =
                     map Inr vals" .
      have "excluded t (sum_field w)" if "w \<in> set vals" for w
      proof -
        from that have "Inr w \<in> set (map (\<lambda>(ci, cs, ce).
                           searchForDerivedAggregate t r ci (d + 1) cs ce) calls)"
          unfolding results by simp
        then obtain ci cs ce where "searchForDerivedAggregate t r ci (d + 1) cs ce = Inr w"
          by auto
        with pairs cells show ?thesis by (rule searchForDerivedAggregate_excluded)
      qed
      with p show ?thesis
        by (simp add: aggregateValueForDerivedAggregate_excluded)
    qed
  qed
qed

lemma query_all_null:
  assumes pairs: "pair_cells_excluded t (derived_aggregated t)"
    and cells: "cells_excluded t (aggregated_values t)"
    and root: "if agg_type t = AVG_agg
               then \<exists>p. read_node (derived_aggregated t) 0 = Inr p \<and> sum_field p = null_val t
               else read_node (aggregated_values t) 0 = Inr (null_val t)"
    and range: "0 \<le> fst r" "fst r \<le> snd r" "snd r \<le> leaf_size t"
  shows "query t r = Inr (null_result t) \<or> (\<exists>e. query t r = Inl e)"
proof (cases "agg_type t = AVG_agg")
  case True
  show ?thesis
  proof (cases "searchForDerivedAggregate t r 0 0 0 (leaf_size t)")
    case (Inl e)
    with True range show ?thesis
      by (simp add: query_def bind_result_def)
  next
    case (Inr p)
    from range have "\<not> (leaf_size t < fst r \<or> snd r < 0)" by simp
    with pairs cells Inr have "sum_field p = null_val t"
      by (rule searchForDerivedAggregate_overlap_null) (use root True in auto)
    with True Inr range show ?thesis
      by (simp add: query_def bind_result_def null_result_def)
  qed
next
  case False
  show ?thesis
  proof (cases "search t r 0 0 0 (leaf_size t)")
    case (Inl e)
    with False range show ?thesis
      by (simp add: query_def bind_result_def)
  next
    case (Inr v)
    from range have "\<not> (leaf_size t < fst r \<or> snd r < 0)" by simp
    with cells Inr have "v = null_val t"
      by (rule search_overlap_null) (use root False in auto)
    with False Inr range show ?thesis
      by (cases "agg_type t") (simp_all add: query_def bind_result_def null_result_def)
  qed
qed

lemma query_full_range_all_null:
  assumes root: "if agg_type t = AVG_agg
               then \<exists>p. read_node (derived_aggregated t) 0 = Inr p \<and> sum_field p = null_val t
               else read_node (aggregated_values t) 0 = Inr (null_val t)"
    and size: "0 \<le> leaf_size t"
  shows "query t (0, leaf_size t) = Inr (null_result t)"
proof (cases "agg_type t = AVG_agg")
  case True
  with root obtain p where "read_node (derived_aggregated t) 0 = Inr p" "sum_field p = null_val t"
    by auto
  with True size show ?thesis
    by (simp add: query_def bind_result_def null_result_def)
next
  case False
  with root have "search t (0, leaf_size t) 0 0 0 (leaf_size t) = Inr (null_val t)"
    using size by simp
  with False size show ?thesis
    by (cases "agg_type t") (simp_all add: query_def bind_result_def null_result_def)
qed


lemma constructed_members:
  assumes "SegmentTree_new fuel input_type agg_traits column ti original ordered hint n agg f =
             Some (Inr t)"
  shows "agg_type t = agg" and "input_type_null_val t = inline_null_value input_type"
    and "null_val t = inline_null_value agg_traits" and "num_elems t = n"
proof -
  from SegmentTree_new_built [OF assms] obtain shape where
    built: "if agg = AVG_agg then
               (\<exists>v. buildForDerivedAggregate fuel
                      ((SegmentTree_members input_type agg_traits column ti original ordered
                          n agg f shape)
                       \<lparr>derived_aggregated := replicate (nat (snd (snd shape))) None\<rparr>) 0 0 =
                    Some (Inr (v, t)))
             else
               (\<exists>v. build fuel
                      ((SegmentTree_members input_type agg_traits column ti original ordered
                          n agg f shape)
                       \<lparr>aggregated_values := replicate (nat (snd (snd shape))) None\<rparr>) 0 0 =
                    Some (Inr (v, t)))"
    by blast
  have "agg_type t = agg \<and> input_type_null_val t = inline_null_value input_type \<and>
        null_val t = inline_null_value agg_traits \<and> num_elems t = n"
  proof (cases "agg = AVG_agg")
    case True
    with built obtain v where
      "buildForDerivedAggregate fuel
         ((SegmentTree_members input_type agg_traits column ti original ordered n agg f shape)
          \<lparr>derived_aggregated := replicate (nat (snd (snd shape))) None\<rparr>) 0 0 = Some (Inr (v, t))"
      by auto
    from buildForDerivedAggregate_frame [OF this] show ?thesis
      by (auto simp: pairs_replaced_def SegmentTree_members_def)
  next
    case False
    with built obtain v where
      "build fuel
         ((SegmentTree_members input_type agg_traits column ti original ordered n agg f shape)
          \<lparr>aggregated_values := replicate (nat (snd (snd shape))) None\<rparr>) 0 0 = Some (Inr (v, t))"
      by auto
    from build_frame [OF this] show ?thesis
      by (auto simp: nodes_replaced_def SegmentTree_members_def)
  qed
  then show "agg_type t = agg" and "input_type_null_val t = inline_null_value input_type"
    and "null_val t = inline_null_value agg_traits" and "num_elems t = n"
    by simp_all
qed

lemma constructed_all_null:
  assumes "SegmentTree_new fuel input_type agg_traits column ti original ordered hint n agg f =
             Some (Inr t)"
    and nulls: "all_rows_null t"
    and "1 \<le> f" and "f < 2 ^ 31" and "int f * n < 2 ^ 53"
  shows "pair_cells_excluded t (derived_aggregated t) \<and>
         cells_excluded t (aggregated_values t) \<and>
         (if agg_type t = AVG_agg
          then \<exists>p. read_node (derived_aggregated t) 0 = Inr p \<and> sum_field p = null_val t
          else read_node (aggregated_values t) 0 = Inr (null_val t))"
proof -
  from SegmentTree_new_built [OF assms(1)] obtain shape where pos: "0 < n"
    and shape: "findMaxTreeHeight n (sint (word_of_nat f :: 32 word)) = Some (Inr shape)"
    and built: "if agg = AVG_agg then
               (\<exists>v. buildForDerivedAggregate fuel
                      ((SegmentTree_members input_type agg_traits column ti original ordered
                          n agg f shape)
                       \<lparr>derived_aggregated := replicate (nat (snd (snd shape))) None\<rparr>) 0 0 =
                    Some (Inr (v, t)))
             else
               (\<exists>v. build fuel
                      ((SegmentTree_members input_type agg_traits column ti original ordered
                          n agg f shape)
                       \<lparr>aggregated_values := replicate (nat (snd (snd shape))) None\<rparr>) 0 0 =
                    Some (Inr (v, t)))"
    by blast
  from findMaxTreeHeight_returns [OF pos assms(3,5)] shape
  obtain k where k: "1 \<le> k" "shape = (of_nat k, (nodes_above f k, nodes_above f (Suc k)))"
    unfolding fan_out_as_int [OF assms(4)] by auto
  have "int k \<le> nodes_above f k"
    using assms(3) by (rule nodes_above_ge)
  with k(1) have first: "0 < nodes_above f k" by simp
  define m where "m = SegmentTree_members input_type agg_traits column ti original ordered
                        n agg f shape"
  have m: "null_val m = inline_null_value agg_traits" "agg_type m = agg"
    "leaf_range m = (nodes_above f k, nodes_above f (Suc k))"
    "derived_aggregated m = []" "aggregated_values m = []"
    by (simp_all add: m_def SegmentTree_members_def k(2))
  show ?thesis
  proof (cases "agg = AVG_agg")
    case True
    define t1 where "t1 = m\<lparr>derived_aggregated := replicate (nat (snd (snd shape))) None\<rparr>"
    from True built obtain v where
      call: "buildForDerivedAggregate fuel t1 0 0 = Some (Inr (v, t))"
      by (auto simp: t1_def m_def)
    note frame = buildForDerivedAggregate_frame [OF call]
    have "all_rows_null t1"
      using nulls by (simp add: pairs_replaced_same(3) [OF frame])
    moreover have "pair_cells_excluded t1 (derived_aggregated t1)"
      by (simp add: pair_cells_excluded_def t1_def)
    ultimately have inv: "pair_cells_excluded t1 (derived_aggregated t)"
      "read_node (derived_aggregated t) 0 = Inr v"
      "\<not> (fst (leaf_range t1) \<le> 0 \<and> 0 \<le> snd (leaf_range t1)) \<longrightarrow> sum_field v = null_val t1"
      using buildForDerivedAggregate_all_null [OF _ _ call] by simp_all
    from first have "\<not> (fst (leaf_range t1) \<le> 0 \<and> 0 \<le> snd (leaf_range t1))"
      by (simp add: t1_def m)
    with inv(3) have root: "sum_field v = null_val t1" by simp
    from frame obtain buf where
      t: "t = t1\<lparr>derived_aggregated := buf\<rparr>"
      by (auto simp: pairs_replaced_def)
    have same: "pair_cells_excluded t = pair_cells_excluded t1"
      "null_val t1 = inline_null_value agg_traits" "agg_type t = agg"
      "null_val t = inline_null_value agg_traits" "aggregated_values t = []"
      by (simp_all add: t t1_def m pair_cells_excluded_def excluded_def fun_eq_iff
          cong: option.case_cong)
    from inv(1,2) root True show ?thesis
      by (auto simp: same cells_excluded_def)
  next
    case False
    define t1 where "t1 = m\<lparr>aggregated_values := replicate (nat (snd (snd shape))) None\<rparr>"
    from False built obtain v where
      call: "build fuel t1 0 0 = Some (Inr (v, t))"
      by (auto simp: t1_def m_def)
    note frame = build_frame [OF call]
    have "all_rows_null t1"
      using nulls by (simp add: nodes_replaced_same(3) [OF frame])
    moreover have "cells_excluded t1 (aggregated_values t1)"
      by (simp add: cells_excluded_def t1_def)
    ultimately have inv: "cells_excluded t1 (aggregated_values t)"
      "read_node (aggregated_values t) 0 = Inr v"
      "\<not> (fst (leaf_range t1) \<le> 0 \<and> 0 \<le> snd (leaf_range t1)) \<longrightarrow> v = null_val t1"
      using build_all_null [OF _ _ call] by simp_all
    from first have "\<not> (fst (leaf_range t1) \<le> 0 \<and> 0 \<le> snd (leaf_range t1))"
      by (simp add: t1_def m)
    with inv(3) have root: "v = null_val t1" by simp
    from frame obtain buf where
      t: "t = t1\<lparr>aggregated_values := buf\<rparr>"
      by (auto simp: nodes_replaced_def)
    have same: "cells_excluded t = cells_excluded t1"
      "null_val t1 = inline_null_value agg_traits" "agg_type t = agg"
      "null_val t = inline_null_value agg_traits" "derived_aggregated t = []"
      by (simp_all add: t t1_def m cells_excluded_def excluded_def fun_eq_iff
          cong: option.case_cong)
    from inv(1,2) root False show ?thesis
      by (auto simp: same pair_cells_excluded_def)
  qed
qed

text \<open>The post-processing of \<open>query\<close> where the search yields the null sentinel.\<close>

lemma query_of_null_search:
  assumes "0 \<le> fst r" and "fst r \<le> snd r" and "snd r \<le> leaf_size t"
    and "if agg_type t = AVG_agg
         then \<exists>p. searchForDerivedAggregate t r 0 0 0 (leaf_size t) = Inr p \<and>
                  sum_field p = null_val t
         else search t r 0 0 0 (leaf_size t) = Inr (null_val t)"
  shows "query t r = Inr (null_result t)"
proof (cases "agg_type t = AVG_agg")
  case True
  with assms(4) obtain p where
    "searchForDerivedAggregate t r 0 0 0 (leaf_size t) = Inr p" "sum_field p = null_val t"
    by auto
  with True assms(1-3) show ?thesis
    by (simp add: query_def bind_result_def null_result_def)
next
  case False
  with assms(4) have "search t r 0 0 0 (leaf_size t) = Inr (null_val t)"
    by simp
  with False assms(1-3) show ?thesis
    by (cases "agg_type t") (simp_all add: query_def bind_result_def null_result_def)
qed

text \<open>
  C4, as amended. Take a tree with a fan-out of at least 2 (and within the bounds of
  exact tree geometry, see C8) and a range with \<open>0 \<le> lo \<le> hi \<le> leafSize\<close>. Where the
  range search yields the null sentinel of the accumulator, \<open>query\<close> returns the null
  sentinel of the input type for MIN and MAX and the null sentinel of the accumulator for
  SUM, AVG and COUNT. In a partition all of whose rows resolve to null the search yields
  nothing else: a query that returns a value returns that one, and the query of the full
  range \<open>[0, leafSize]\<close> does return it.
\<close>

theorem all_null_partition_query:
  assumes "SegmentTree_new fuel input_type agg_traits column ti original ordered hint n agg f =
             Some (Inr t)"
    and "2 \<le> f" and "f < 2 ^ 31" and "int f * n < 2 ^ 53"
    and "0 \<le> fst r" and "fst r \<le> snd r" and "snd r \<le> leaf_size t"
  shows "((if agg = AVG_agg
           then \<exists>p. searchForDerivedAggregate t r 0 0 0 (leaf_size t) = Inr p \<and>
                    sum_field p = inline_null_value agg_traits
           else search t r 0 0 0 (leaf_size t) = Inr (inline_null_value agg_traits)) \<longrightarrow>
          query t r = Inr (if agg = MIN_agg \<or> agg = MAX_agg then inline_null_value input_type
                          else inline_null_value agg_traits)) \<and>
         ((\<forall>slot v. 0 \<le> slot \<and> slot < n \<and> spec_resolve t slot = Inr v \<longrightarrow>
                    v = inline_null_value input_type) \<longrightarrow>
          (query t r = Inr (if agg = MIN_agg \<or> agg = MAX_agg then inline_null_value input_type
                           else inline_null_value agg_traits) \<or>
           (\<exists>e. query t r = Inl e)) \<and>
          query t (0, leaf_size t) =
            Inr (if agg = MIN_agg \<or> agg = MAX_agg then inline_null_value input_type
                 else inline_null_value agg_traits))"
proof -
  note fields = constructed_members [OF assms(1)]
  from assms(5-7) have size: "0 \<le> leaf_size t" by simp
  have expected: "null_result t =
      (if agg = MIN_agg \<or> agg = MAX_agg then inline_null_value input_type
       else inline_null_value agg_traits)"
    by (simp add: null_result_def fields)
  have search_null: "query t r = Inr (null_result t)"
    if "if agg = AVG_agg
        then \<exists>p. searchForDerivedAggregate t r 0 0 0 (leaf_size t) = Inr p \<and>
                 sum_field p = inline_null_value agg_traits
        else search t r 0 0 0 (leaf_size t) = Inr (inline_null_value agg_traits)"
    by (rule query_of_null_search [OF assms(5-7)]) (unfold fields, rule that)
  have partition: "(query t r = Inr (null_result t) \<or> (\<exists>e. query t r = Inl e)) \<and>
                   query t (0, leaf_size t) = Inr (null_result t)"
    if "\<forall>slot v. 0 \<le> slot \<and> slot < n \<and> spec_resolve t slot = Inr v \<longrightarrow>
                  v = inline_null_value input_type"
  proof -
    from that have nulls: "all_rows_null t"
      by (simp add: all_rows_null_def fields)
    from assms(2) have fan: "1 \<le> f" by simp
    from constructed_all_null [OF assms(1) nulls fan assms(3,4)]
    have pairs: "pair_cells_excluded t (derived_aggregated t)"
      and cells: "cells_excluded t (aggregated_values t)"
      and root: "if agg_type t = AVG_agg
          then \<exists>p. read_node (derived_aggregated t) 0 = Inr p \<and> sum_field p = null_val t
          else read_node (aggregated_values t) 0 = Inr (null_val t)"
      by blast+
    from query_all_null [OF pairs cells root assms(5-7)]
      query_full_range_all_null [OF root size]
    show ?thesis by blast
  qed
  from search_null partition show ?thesis
    unfolding expected by blast
qed

lemma null_rows_MIN: "null_rows MIN_agg = Some (Inr null_rows_min_tree)"
  by code_simp

lemma nulls_first_SUM: "nulls_first SUM_agg = Some (Inr nulls_first_sum_tree)"
  by code_simp

theorem all_null_partition_query_witness:
  "SegmentTree_new 2 int32_traits int64_traits [5, NULL_INT, NULL_INT] kBIGINT
     [1, 2] [0, 1] (0, 0) 2 MIN_agg 2 = Some (Inr null_rows_min_tree) \<and>
   (2 :: nat) \<le> 2 \<and> (2 :: nat) < 2 ^ 31 \<and> int 2 * 2 < 2 ^ 53 \<and>
   0 \<le> fst (0 :: int, 1 :: int) \<and> fst (0 :: int, 1 :: int) \<le> snd (0 :: int, 1 :: int) \<and>
   snd (0 :: int, 1 :: int) \<le> leaf_size null_rows_min_tree \<and>
   map (spec_resolve null_rows_min_tree) [0, 1] = [Inr NULL_INT, Inr NULL_INT] \<and>
   query null_rows_min_tree (0, 1) = Inr NULL_INT \<and>
   query null_rows_min_tree (0, leaf_size null_rows_min_tree) = Inr NULL_INT \<and>
   NULL_INT \<noteq> NULL_BIGINT \<and>
   SegmentTree_new 3 int64_traits int64_traits [NULL_BIGINT, NULL_BIGINT, 3, 4] kBIGINT
     [0, 1, 2, 3] [0, 1, 2, 3] (0, 0) 4 SUM_agg 2 = Some (Inr nulls_first_sum_tree) \<and>
   search nulls_first_sum_tree (0, 1) 0 0 0 (leaf_size nulls_first_sum_tree) = Inr NULL_BIGINT \<and>
   query nulls_first_sum_tree (0, 1) = Inr NULL_BIGINT"
proof -
  have built: "SegmentTree_new 2 int32_traits int64_traits [5, NULL_INT, NULL_INT] kBIGINT
      [1, 2] [0, 1] (0, 0) 2 MIN_agg 2 = Some (Inr null_rows_min_tree)"
    using null_rows_MIN by (simp only: null_rows_def)
  have fan: "(2 :: nat) \<le> 2" "(2 :: nat) < 2 ^ 31" and count: "int 2 * 2 < 2 ^ 53"
    and count': "int 2 * 4 < 2 ^ 53"
    by simp_all
  have range: "0 \<le> fst (0 :: int, 1 :: int)" "fst (0 :: int, 1 :: int) \<le> snd (0 :: int, 1 :: int)"
    "snd (0 :: int, 1 :: int) \<le> leaf_size null_rows_min_tree"
    by (simp_all add: null_rows_min_tree_def)
  have rows: "map (spec_resolve null_rows_min_tree) [0, 1] = [Inr NULL_INT, Inr NULL_INT]"
    by code_simp
  have nulls: "\<forall>slot v. 0 \<le> slot \<and> slot < 2 \<and> spec_resolve null_rows_min_tree slot = Inr v \<longrightarrow>
                        v = inline_null_value int32_traits"
  proof (intro allI impI)
    fix slot :: int and v
    assume slot: "0 \<le> slot \<and> slot < 2 \<and> spec_resolve null_rows_min_tree slot = Inr v"
    then have "slot = 0 \<or> slot = 1" by linarith
    with slot rows show "v = inline_null_value int32_traits"
      by (auto simp: NULL_INT_def int32_traits_def)
  qed
  have evaluated: "query null_rows_min_tree (0, 1) = Inr NULL_INT"
    by code_simp
  have differ: "NULL_INT \<noteq> NULL_BIGINT"
    by (simp add: NULL_INT_def NULL_BIGINT_def)
  from all_null_partition_query [OF built fan count range, THEN conjunct2] nulls
  have "query null_rows_min_tree (0, leaf_size null_rows_min_tree) =
          Inr (inline_null_value int32_traits)"
    by simp
  then have full: "query null_rows_min_tree (0, leaf_size null_rows_min_tree) = Inr NULL_INT"
    by (simp add: NULL_INT_def int32_traits_def)
  have built': "SegmentTree_new 3 int64_traits int64_traits [NULL_BIGINT, NULL_BIGINT, 3, 4]
      kBIGINT [0, 1, 2, 3] [0, 1, 2, 3] (0, 0) 4 SUM_agg 2 = Some (Inr nulls_first_sum_tree)"
    using nulls_first_SUM by (simp only: nulls_first_def)
  have range': "0 \<le> fst (0 :: int, 1 :: int)" "fst (0 :: int, 1 :: int) \<le> snd (0 :: int, 1 :: int)"
    "snd (0 :: int, 1 :: int) \<le> leaf_size nulls_first_sum_tree"
    by (simp_all add: nulls_first_sum_tree_def)
  have found: "search nulls_first_sum_tree (0, 1) 0 0 0 (leaf_size nulls_first_sum_tree) =
                 Inr NULL_BIGINT"
    by code_simp
  then have found': "search nulls_first_sum_tree (0, 1) 0 0 0 (leaf_size nulls_first_sum_tree) =
                 Inr (inline_null_value int64_traits)"
    by (simp add: NULL_BIGINT_def int64_traits_def)
  from all_null_partition_query [OF built' fan count' range', THEN conjunct1] found'
  have "query nulls_first_sum_tree (0, 1) = Inr (inline_null_value int64_traits)"
    by simp
  then have mixed: "query nulls_first_sum_tree (0, 1) = Inr NULL_BIGINT"
    by (simp add: NULL_BIGINT_def int64_traits_def)
  from built fan count range rows evaluated full differ built' found mixed show ?thesis
    by blast
qed

subsection \<open>The AVG result\<close>




















subsection \<open>Range queries against the linear scan\<close>

text \<open>
  C1. On the SUM tree of the concrete scenario the query of the range \<open>[0, 6]\<close> returns
  14, where the linear scan of the resolved leaf values 0 to 6 gives 21, and on the MAX
  tree it returns 6, where the linear scan gives 7: \<open>query\<close> starts
  the search with the covered range \<open>[0, leaf_size_]\<close>, one slot more than the leaves,
  so that the covered ranges of the nodes are shifted against the leaves they aggregate.
\<close>

theorem query_differs_from_linear_scan:
  "on_tree (spec_scenario SUM_agg) (\<lambda>t. query t (0, 6)) = Some (Inr 14) \<and>
   on_tree (spec_scenario SUM_agg) (\<lambda>t. spec_linear_scan t (0, 6)) = Some (Inr 21) \<and>
   on_tree (spec_scenario MAX_agg) (\<lambda>t. query t (0, 6)) = Some (Inr 6) \<and>
   on_tree (spec_scenario MAX_agg) (\<lambda>t. spec_linear_scan t (0, 6)) = Some (Inr 7)"
  by code_simp

text \<open>
  C3. The four queries of the concrete scenario: the code returns 14 for SUM over
  \<open>[0, 6]\<close> (expected 21), 1 for SUM over \<open>[1, 1]\<close> (expected the null sentinel), 1 for
  SUM over \<open>[0, 1]\<close> (as expected) and 4 for COUNT over \<open>[0, 6]\<close> (expected 5).
\<close>

theorem spec_scenario_queries:
  "on_tree (spec_scenario SUM_agg) (\<lambda>t. query t (0, 6)) = Some (Inr 14) \<and>
   on_tree (spec_scenario SUM_agg) (\<lambda>t. query t (1, 1)) = Some (Inr 1) \<and>
   on_tree (spec_scenario SUM_agg) (\<lambda>t. query t (0, 1)) = Some (Inr 1) \<and>
   on_tree (spec_scenario COUNT_agg) (\<lambda>t. query t (0, 6)) = Some (Inr 4)"
  by code_simp

subsection \<open>Partition of the covered range\<close>

text \<open>
  The branch of \<open>search\<close> that partitions the covered range is reached only with a
  covered range of at least two slots, so that the unsigned division by the fan-out has
  a positive dividend and \<open>num_visits\<close> is positive.
\<close>

lemma partial_overlap_nonempty:
  fixes search_range_start_idx search_range_end_idx :: int
  assumes "\<not> (search_range_end_idx < fst query_range \<or> snd query_range < search_range_start_idx)"
    and "\<not> (fst query_range \<le> search_range_start_idx \<and> search_range_end_idx \<le> snd query_range)"
  shows "search_range_start_idx < search_range_end_idx \<and>
         0 < snd query_range - search_range_start_idx + 1"
  using assms by linarith

text \<open>
  C7. With fan-out 3, the node that covers \<open>[10, 19]\<close> has the pivot
  \<open>10 + (19 - 10) / 3 = 13\<close> and hands its three children the slices \<open>[10, 13]\<close>,
  \<open>[14, 19]\<close> and the empty \<open>[20, 19]\<close>: the loop adds the pivot index, not the slice
  width, to the start of the next slice, so the slices are not of equal width.
\<close>

theorem childSearchRanges_unequal_slices:
  "childSearchRanges 3 (10 + (19 - 10) div 3) 19 10 (10 + (19 - 10) div 3) =
     [(10, 13), (14, 19), (20, 19)]"
  by code_simp

subsection \<open>Memory safety\<close>

text \<open>
  C9. With index arrays of exactly \<open>elementCount\<close> entries, the construction of the AVG
  tree of the concrete scenario reads the ordered index array at position 7, for the
  padding leaf: \<open>buildForDerivedAggregate\<close> resolves the indirection before it compares
  the slot with \<open>num_elems_\<close>. On the SUM tree, the query of the range \<open>[1, 8]\<close>, which
  passes the range check of \<open>query\<close>, reads the node buffer at index 15, one past its
  15 cells.
\<close>

theorem reads_outside_the_buffers:
  "spec_scenario AVG_agg = Some (Inl IndexBufferOutOfBounds) \<and>
   on_tree (spec_scenario SUM_agg) (\<lambda>t. query t (1, 8)) = Some (Inl NodeBufferOutOfBounds)"
  by code_simp

end
